theory Spec2Isabelle
  imports Main "HOL-Library.Multiset"
begin

text \<open>
  The route compiler of the utilities module: \<open>createRoutes\<close> turns a list of page
  files into a forest of route nodes, sorting every sibling list after each insertion,
  \<open>cleanChildrenRoutes\<close> is its final pass over the forest, and \<open>flatRoutes\<close>
  lists the static paths of a forest. The three functions are written here as
  functions on lists and strings, from the source, and the properties that the
  specification states of them are proved or refuted.
\<close>

section \<open>Strings and arrays as the JavaScript source uses them\<close>

text \<open>
  JavaScript strings are modelled as \<open>string\<close> (a list of characters) and arrays as
  lists. The helpers below are the few methods of \<open>String.prototype\<close> and
  \<open>Array.prototype\<close> that the route compiler calls, each with the behaviour the
  language gives it on every input.
\<close>

text \<open>\<open>s.split(c)\<close> for a one-character separator: never an empty array.\<close>

fun split :: "char \<Rightarrow> string \<Rightarrow> string list" where
  "split c [] = [[]]"
| "split c (x # xs) =
     (if x = c then [] # split c xs
      else (case split c xs of [] \<Rightarrow> [[x]] | t # ts \<Rightarrow> (x # t) # ts))"

text \<open>\<open>ts.join(c)\<close> for a one-character separator.\<close>

fun join :: "char \<Rightarrow> string list \<Rightarrow> string" where
  "join c [] = []"
| "join c [t] = t"
| "join c (t # u # ts) = t @ c # join c (u # ts)"

text \<open>
  \<open>s.replace(c, r)\<close> with a string pattern of one character: only the first
  occurrence is replaced.
\<close>

fun replace_first :: "char \<Rightarrow> string \<Rightarrow> string \<Rightarrow> string" where
  "replace_first c r [] = []"
| "replace_first c r (x # xs) = (if x = c then r @ xs else x # replace_first c r xs)"

text \<open>\<open>s.indexOf(t) === 0\<close> for a non-empty \<open>t\<close>, and \<open>/t$/.test(s)\<close>.\<close>

definition starts_with :: "string \<Rightarrow> string \<Rightarrow> bool" where
  "starts_with t s = (take (length t) s = t)"

definition ends_with :: "string \<Rightarrow> string \<Rightarrow> bool" where
  "ends_with t s = (length t \<le> length s \<and> drop (length s - length t) s = t)"

text \<open>\<open>s.replace(/t$/, '')\<close>: the suffix \<open>t\<close> is removed when it is there.\<close>

definition strip_suffix :: "string \<Rightarrow> string \<Rightarrow> string" where
  "strip_suffix t s = (if ends_with t s then take (length s - length t) s else s)"

text \<open>\<open>s.replace(/\.(vue|js)$/, '')\<close>.\<close>

definition strip_extension :: "string \<Rightarrow> string" where
  "strip_extension s =
     (if ends_with ''.vue'' s then strip_suffix ''.vue'' s else strip_suffix ''.js'' s)"

text \<open>\<open>s.replace(/\/{2,}/g, '/')\<close>: every run of slashes becomes one slash.\<close>

fun squeeze_slashes :: "string \<Rightarrow> string" where
  "squeeze_slashes (x # y # s) =
     (if x = CHR ''/'' \<and> y = CHR ''/'' then squeeze_slashes (y # s)
      else x # squeeze_slashes (y # s))"
| "squeeze_slashes s = s"

text \<open>
  \<open>xs[i]\<close>: \<open>None\<close> stands for \<open>undefined\<close>, which is what JavaScript reads
  outside the array.
\<close>

definition at :: "'a list \<Rightarrow> int \<Rightarrow> 'a option" where
  "at xs i = (if 0 \<le> i \<and> i < int (length xs) then Some (xs ! nat i) else None)"

text \<open>\<open>xs.indexOf(x)\<close>: the first position of \<open>x\<close>, or \<open>-1\<close>.\<close>

fun indexOf :: "'a list \<Rightarrow> 'a \<Rightarrow> int" where
  "indexOf [] x = - 1"
| "indexOf (y # ys) x = (if y = x then 0 else (let k = indexOf ys x in if k < 0 then - 1 else k + 1))"

section \<open>Route nodes\<close>

text \<open>
  A route object \<open>{ name, path, component, chunkName, children }\<close>. The type of the
  name is a parameter: \<open>createRoutes\<close> builds nodes whose name is a string, and
  \<open>cleanChildrenRoutes\<close> returns nodes whose name may have been deleted
  (\<open>string option\<close>, \<open>None\<close> after \<open>delete route.name\<close>). \<open>chunkName\<close> and
  \<open>children\<close> are absent until they are assigned. \<open>component\<close> holds the two
  arguments of \<open>r(srcDir, file)\<close>: the resolution of that pair to an absolute path is
  done by Node's \<open>path\<close> module and no function of the compiler reads the result.
\<close>

datatype 'n route =
  Route (name: 'n) (path: string) (component: "string \<times> string")
        (chunkName: "string option") (children: "'n route list option")

section \<open>The comparator of the sibling sort\<close>

text \<open>
  \<open>y = _a[i] === '*' ? 2 : _a[i].indexOf(':') > -1 ? 1 : 0\<close>: the class of one
  path token.
\<close>

definition tokenClass :: "string \<Rightarrow> int" where
  "tokenClass t = (if t = ''*'' then 2 else if CHR '':'' \<in> set t then 1 else 0)"

text \<open>\<open>/^\/(:|\*)/.test(p)\<close>.\<close>

definition dynamicStart :: "string \<Rightarrow> bool" where
  "dynamicStart p = (starts_with ''/:'' p \<or> starts_with ''/*'' p)"

text \<open>
  The \<open>for\<close> loop of the comparator, over the tokens \<open>ta\<close> of \<open>a.path\<close> and
  \<open>tb\<close> of \<open>b.path\<close>, from the state \<open>(i, res)\<close>; it returns the state at
  which the loop is left. Reading \<open>_b[i]\<close> beyond the end of \<open>_b\<close> gives
  \<open>undefined\<close>, on which \<open>indexOf\<close> throws a TypeError: that is \<open>None\<close>.
\<close>

function compareLoop :: "string list \<Rightarrow> string list \<Rightarrow> nat \<Rightarrow> int \<Rightarrow> (nat \<times> int) option" where
  "compareLoop ta tb i res =
     (if i < length ta then
        (if res \<noteq> 0 then Some (i, res)
         else if i < length tb then
           (let y = tokenClass (ta ! i);
                z = tokenClass (tb ! i);
                res1 = y - z;
                res2 = (if int i = int (length tb) - 1 \<and> res1 = 0
                        then (if ta ! i = ''*'' then - 1 else 1) else res1)
            in compareLoop ta tb (i + 1) res2)
         else None)
      else Some (i, res))"
  by pat_completeness auto
termination
  by (relation "measure (\<lambda>(ta, tb, i, res). length ta - i)") auto

declare compareLoop.simps [simp del]

text \<open>
  The comparator passed to \<open>parent.sort\<close>. The last line is
  \<open>res === 0 ? (_a[i - 1] === '*' && _b[i] ? 1 : -1) : res\<close>, where \<open>_b[i]\<close> is
  truthy when it is a non-empty string.
\<close>

definition compareRoutes :: "'n route \<Rightarrow> 'n route \<Rightarrow> int option" where
  "compareRoutes a b =
     (if path a = [] then Some (- 1)
      else if path b = [] then Some 1
      else if path a = ''/'' then Some (if dynamicStart (path b) then - 1 else 1)
      else if path b = ''/'' then Some (if dynamicStart (path a) then 1 else - 1)
      else
        (let ta = split CHR ''/'' (path a); tb = split CHR ''/'' (path b) in
         case compareLoop ta tb 0 0 of
           None \<Rightarrow> None
         | Some (i, res) \<Rightarrow>
             Some (if res = 0
                   then (if at ta (int i - 1) = Some ''*'' \<and>
                            (case at tb (int i) of None \<Rightarrow> False | Some t \<Rightarrow> t \<noteq> [])
                         then 1 else - 1)
                   else res)))"

text \<open>
  The number the sort reads from the comparator. The comparator never throws (lemma
  \<open>compareRoutes_returns\<close> below), so the second case is never taken.
\<close>

definition comparefn :: "'n route \<Rightarrow> 'n route \<Rightarrow> int" where
  "comparefn a b = (case compareRoutes a b of Some order \<Rightarrow> order | None \<Rightarrow> 0)"

section \<open>The sort\<close>

text \<open>
  \<open>parent.sort(comparefn)\<close>. ECMAScript fixes the result of
  \<open>Array.prototype.sort\<close> only for a comparator that is a consistent ordering. The
  comparator above is not one (it answers \<open>-1\<close> for two empty paths in both
  directions, and \<open>1\<close> in both directions for two static paths with the same number
  of tokens), and for such a comparator the language leaves the order to the engine: it
  promises the same elements and nothing else. The sort is therefore a parameter
  \<open>srt\<close> of the functions that place a file, and what is proved below of the order
  of siblings is proved for every \<open>srt\<close> that meets the contract \<open>sortsBy\<close>: the
  result is a rearrangement of the array, and no two neighbours of the result stand in an
  order that the comparator rejects whichever way it is asked. A sort that leaves two
  elements next to each other only after it has compared them, and in the order that the
  comparison gave, meets this contract whatever the comparator answers.
\<close>

text \<open>\<open>x\<close> before \<open>y\<close> is rejected by \<open>cmp(x, y)\<close> and by \<open>cmp(y, x)\<close>.\<close>

definition inverted :: "('a \<Rightarrow> 'a \<Rightarrow> int) \<Rightarrow> 'a \<Rightarrow> 'a \<Rightarrow> bool" where
  "inverted cmp x y = (cmp x y > 0 \<and> cmp y x < 0)"

definition settled :: "('a \<Rightarrow> 'a \<Rightarrow> int) \<Rightarrow> 'a list \<Rightarrow> bool" where
  "settled cmp a = successively (\<lambda>x y. \<not> inverted cmp x y) a"

definition rearranges :: "('a list \<Rightarrow> 'a list) \<Rightarrow> bool" where
  "rearranges srt = (\<forall>a. mset (srt a) = mset a)"

definition sortsBy :: "('a \<Rightarrow> 'a \<Rightarrow> int) \<Rightarrow> ('a list \<Rightarrow> 'a list) \<Rightarrow> bool" where
  "sortsBy cmp srt = (rearranges srt \<and> (\<forall>a. settled cmp (srt a)))"

text \<open>
  The engine of Node.js is V8, whose sort is TimSort
  (\<open>third_party/v8/builtins/array-sort.tq\<close>). For an array of fewer than 64 elements
  \<open>ComputeMinRunLength\<close> returns the length of the array, and the array is sorted as
  one run: \<open>CountAndMakeRun\<close> takes the longest run at the start of the array, which
  is ascending, or strictly descending and then reversed,
  \<^verbatim>\<open>
  let order = sortState.Compare(elementLow, elementHigh);   // a[low + 1], a[low]
  const isDescending = order < 0;
  for (let idx = low + 1; idx < high; ++idx) {
    order = sortState.Compare(currentElement, previousElement);
    if (isDescending) { if (order >= 0) break; } else { if (order < 0) break; }
    ++runLength;
  }
  if (isDescending) ReverseRange(workArray, lowArg, lowArg + runLength);
  \<close>
  and \<open>BinaryInsertionSort\<close> inserts every later element at the place that a binary
  search in the sorted part gives:
  \<^verbatim>\<open>
  while (left < right) {
    const mid = left + ((right - left) >> 1);
    const order = sortState.Compare(pivot, workArray[mid]);
    if (order < 0) { right = mid; } else { left = mid + 1; }
  }
  \<close>
  This is the function \<open>timSort\<close>, and \<open>sortRoutes\<close> is \<open>timSort\<close> with the
  comparator of the routes; the examples below are computed with it. A longer array is
  cut by V8 into runs of 32 to 64 elements, each made in this way, and the runs are then
  merged; \<open>timSort\<close> treats an array of every length as one run, so it is V8's sort
  for sibling lists of up to 63 nodes. No statement below about lists of arbitrary length
  rests on \<open>timSort\<close> in any other way than through the contract, which it meets
  (lemma \<open>sortsBy_timSort\<close>).
\<close>

text \<open>
  How many of the elements after \<open>previous\<close> continue the run.
\<close>

fun runEnd :: "('a \<Rightarrow> 'a \<Rightarrow> int) \<Rightarrow> bool \<Rightarrow> 'a \<Rightarrow> 'a list \<Rightarrow> nat" where
  "runEnd cmp descending previous [] = 0"
| "runEnd cmp descending previous (current # rest) =
     (let order = cmp current previous
      in if (if descending then order \<ge> 0 else order < 0) then 0
         else Suc (runEnd cmp descending current rest))"

text \<open>The first run of the array, made ascending, and what follows it.\<close>

definition countAndMakeRun :: "('a \<Rightarrow> 'a \<Rightarrow> int) \<Rightarrow> 'a list \<Rightarrow> 'a list \<times> 'a list" where
  "countAndMakeRun cmp a =
     (case a of
        low # next # rest \<Rightarrow>
          (let descending = cmp next low < 0;
               runLength = 2 + runEnd cmp descending next rest
           in (if descending then rev (take runLength a) else take runLength a, drop runLength a))
      | _ \<Rightarrow> (a, []))"

function binarySearch :: "('a \<Rightarrow> 'a \<Rightarrow> int) \<Rightarrow> 'a \<Rightarrow> 'a list \<Rightarrow> nat \<Rightarrow> nat \<Rightarrow> nat" where
  "binarySearch cmp pivot a left right =
     (if left < right then
        (let mid = left + (right - left) div 2
         in if cmp pivot (a ! mid) < 0 then binarySearch cmp pivot a left mid
            else binarySearch cmp pivot a (mid + 1) right)
      else left)"
  by pat_completeness auto
termination
  by (relation "measure (\<lambda>(cmp, pivot, a, left, right). right - left)") auto

declare binarySearch.simps [simp del]

definition binaryInsert :: "('a \<Rightarrow> 'a \<Rightarrow> int) \<Rightarrow> 'a list \<Rightarrow> 'a \<Rightarrow> 'a list" where
  "binaryInsert cmp a pivot =
     (let left = binarySearch cmp pivot a 0 (length a) in take left a @ pivot # drop left a)"

definition binaryInsertionSort :: "('a \<Rightarrow> 'a \<Rightarrow> int) \<Rightarrow> 'a list \<Rightarrow> 'a list \<Rightarrow> 'a list" where
  "binaryInsertionSort cmp run rest = foldl (binaryInsert cmp) run rest"

definition timSort :: "('a \<Rightarrow> 'a \<Rightarrow> int) \<Rightarrow> 'a list \<Rightarrow> 'a list" where
  "timSort cmp a =
     (if length a < 2 then a
      else (case countAndMakeRun cmp a of (run, rest) \<Rightarrow> binaryInsertionSort cmp run rest))"

definition sortRoutes :: "'n route list \<Rightarrow> 'n route list" where
  "sortRoutes parent = timSort comparefn parent"

section \<open>createRoutes: placing one file\<close>

text \<open>
  \<open>file.replace(RegExp(`^${pagesDir}`), '')\<close>. \<open>pagesDir\<close> is read as literal
  text, which is what the regular expression means for a directory name without
  metacharacters (such as \<open>pages\<close>).
\<close>

definition strip_pagesDir :: "string \<Rightarrow> string \<Rightarrow> string" where
  "strip_pagesDir pagesDir file =
     (if starts_with pagesDir file then drop (length pagesDir) file else file)"

text \<open>The \<open>keys\<close> of a file; \<open>.slice(1)\<close> drops the first piece.\<close>

definition keysOf :: "string \<Rightarrow> string \<Rightarrow> string list" where
  "keysOf pagesDir file =
     tl (split CHR ''/'' (squeeze_slashes (strip_extension (strip_pagesDir pagesDir file))))"

definition sanatizedKey :: "string \<Rightarrow> string" where
  "sanatizedKey key = (if starts_with ''_'' key then replace_first CHR ''_'' [] key else key)"

text \<open>
  The two assignments to \<open>route.name\<close> in the loop over the keys; an empty
  \<open>route.name\<close> is falsy.
\<close>

definition nextName :: "string \<Rightarrow> string \<Rightarrow> string" where
  "nextName nm key =
     (if nm \<noteq> [] then nm @ ''-'' @ sanatizedKey key else sanatizedKey key)
     @ (if key = ''_'' then ''all'' else [])"

text \<open>
  What \<open>route.path += ...\<close> appends for the key at position \<open>i\<close> of \<open>n\<close> keys,
  in the branch where no sibling carries the name.
\<close>

definition pathPart :: "string \<Rightarrow> nat \<Rightarrow> nat \<Rightarrow> string" where
  "pathPart key i n =
     (if key = ''index'' \<and> i + 1 = n then (if i > 0 then [] else ''/'')
      else ''/'' @
           (if key = ''_'' then ''*''
            else if starts_with ''_'' key then replace_first CHR ''_'' '':'' key
            else key)
           @ (if key \<noteq> ''_'' \<and> starts_with ''_'' key then ''?'' else []))"

text \<open>\<open>_.find(parent, { name })\<close>, as the position of the first match.\<close>

fun findIndex :: "('a \<Rightarrow> bool) \<Rightarrow> 'a list \<Rightarrow> nat option" where
  "findIndex P [] = None"
| "findIndex P (x # xs) = (if P x then Some 0 else map_option Suc (findIndex P xs))"

text \<open>
  The loop \<open>keys.forEach((key, i) => ...)\<close> followed by \<open>parent.push(route)\<close> and
  \<open>parent.sort(...)\<close>, the latter being \<open>srt\<close>. \<open>parent\<close> is the sibling list the cursor points at, the
  list of keys is what is left to read, \<open>i\<close> the position of its head among the
  \<open>n\<close> keys of the file. When a sibling with the accumulated name exists, the
  cursor moves into its \<open>children\<close> (created empty if absent) and the path starts
  again from the empty string; the source does this by mutating the tree in place and
  the model returns the updated sibling list.
\<close>

fun place :: "(string route list \<Rightarrow> string route list) \<Rightarrow> string route list \<Rightarrow> string list
              \<Rightarrow> nat \<Rightarrow> nat \<Rightarrow> string \<Rightarrow> string route \<Rightarrow> string route list" where
  "place srt parent [] i n file route = srt (parent @ [route])"
| "place srt parent (key # keys) i n file route =
     (let nm = nextName (name route) key;
          chunk = Some (strip_extension file)
      in case findIndex (\<lambda>c. name c = nm) parent of
           Some k \<Rightarrow>
             (let child = parent ! k;
                  kids = (case children child of None \<Rightarrow> [] | Some cs \<Rightarrow> cs)
              in parent[k := Route (name child) (path child) (component child) (chunkName child)
                    (Some (place srt kids keys (i + 1) n file
                       (Route nm [] (component route) chunk (children route))))])
         | None \<Rightarrow>
             place srt parent keys (i + 1) n file
               (Route nm (path route @ pathPart key i n) (component route) chunk
                  (children route)))"

definition addFile :: "(string route list \<Rightarrow> string route list) \<Rightarrow> string \<Rightarrow> string
                \<Rightarrow> string route list \<Rightarrow> string \<Rightarrow> string route list" where
  "addFile srt srcDir pagesDir routes file =
     (let keys = keysOf pagesDir file
      in place srt routes keys 0 (length keys) file (Route [] [] (srcDir, file) None None))"

text \<open>The forest after \<open>files.forEach\<close>, before the final pass.\<close>

definition buildRoutes :: "(string route list \<Rightarrow> string route list) \<Rightarrow> string list \<Rightarrow> string \<Rightarrow> string
                    \<Rightarrow> string route list" where
  "buildRoutes srt files srcDir pagesDir = foldl (addFile srt srcDir pagesDir) [] files"

section \<open>cleanChildrenRoutes\<close>

definition isIndexName :: "string \<Rightarrow> bool" where
  "isIndexName nm = (ends_with ''-index'' nm \<or> nm = ''index'')"

text \<open>The first loop: \<open>start\<close> and \<open>routesIndex\<close>.\<close>

fun indexScan :: "string route list \<Rightarrow> int \<times> string list list \<Rightarrow> int \<times> string list list" where
  "indexScan [] (start, routesIndex) = (start, routesIndex)"
| "indexScan (route # routes) (start, routesIndex) =
     (if isIndexName (name route) then
        (let res = split CHR ''-'' (name route);
             s = indexOf res ''index''
         in indexScan routes (if start = - 1 \<or> s < start then s else start, routesIndex @ [res]))
      else indexScan routes (start, routesIndex))"

text \<open>The loop \<open>for (let a = 0; a <= i; a++)\<close> over \<open>paths\<close>.\<close>

function stripLoop :: "string list \<Rightarrow> string list \<Rightarrow> string list \<Rightarrow> int \<Rightarrow> nat \<Rightarrow> string list" where
  "stripLoop names r paths i a =
     (if int a \<le> i then
        (let paths1 = (if int a = i then paths[a := replace_first CHR ''?'' [] (paths ! a)]
                       else paths)
         in if int a < i \<and> at names (int a) \<noteq> at r (int a) then paths1
            else stripLoop names r paths1 i (a + 1))
      else paths)"
  by pat_completeness auto
termination
  by (relation "measure (\<lambda>(names, r, paths, i, a). nat (i + 1 - int a))") auto

declare stripLoop.simps [simp del]

text \<open>The body of \<open>routesIndex.forEach(r => ...)\<close>.\<close>

definition stripOptional :: "string list \<Rightarrow> int \<Rightarrow> string list \<Rightarrow> string list \<Rightarrow> string list" where
  "stripOptional names start paths r =
     (let i = indexOf r ''index'' - start
      in if i < int (length paths) then stripLoop names r paths i 0 else paths)"

text \<open>The path of a route after the second loop.\<close>

definition cleanPath :: "int \<Rightarrow> string list list \<Rightarrow> bool \<Rightarrow> string \<Rightarrow> string \<Rightarrow> string" where
  "cleanPath start routesIndex isChild nm p =
     (let p1 = (if isChild then replace_first CHR ''/'' [] p else p)
      in if CHR ''?'' \<in> set p1 then
           (let names = split CHR ''-'' nm;
                paths = split CHR ''/'' p1;
                paths1 = (if \<not> isChild then tl paths else paths);
                paths2 = foldl (stripOptional names start) paths1 routesIndex
            in (if isChild then [] else ''/'') @ join CHR ''/'' paths2)
         else p1)"

fun cleanChildrenRoutes :: "string route list \<Rightarrow> bool \<Rightarrow> string option route list"
  and cleanRoute :: "int \<Rightarrow> string list list \<Rightarrow> bool \<Rightarrow> string route \<Rightarrow> string option route"
  and cleanEach :: "int \<Rightarrow> string list list \<Rightarrow> bool \<Rightarrow> string route list \<Rightarrow> string option route list"
where
  "cleanChildrenRoutes routes isChild =
     (case indexScan routes (- 1, []) of
        (start, routesIndex) \<Rightarrow> cleanEach start routesIndex isChild routes)"
| "cleanRoute start routesIndex isChild (Route nm p cref chunk kids) =
     (let p1 = cleanPath start routesIndex isChild nm p;
          nm1 = strip_suffix ''-index'' nm
      in case kids of
           None \<Rightarrow> Route (Some nm1) p1 cref chunk None
         | Some cs \<Rightarrow>
             Route (if \<exists>child \<in> set cs. path child = [] then None else Some nm1) p1 cref chunk
               (Some (cleanChildrenRoutes cs True)))"
| "cleanEach start routesIndex isChild [] = []"
| "cleanEach start routesIndex isChild (route # routes) =
     cleanRoute start routesIndex isChild route # cleanEach start routesIndex isChild routes"


text \<open>
  \<open>createRoutes\<close> with the sort \<open>srt\<close> of the engine, and \<open>createRoutes\<close>
  as Node.js runs it.
\<close>

definition createRoutesWith :: "(string route list \<Rightarrow> string route list) \<Rightarrow> string list \<Rightarrow> string \<Rightarrow> string
                         \<Rightarrow> string option route list" where
  "createRoutesWith srt files srcDir pagesDir = cleanChildrenRoutes (buildRoutes srt files srcDir pagesDir) False"

definition createRoutes :: "string list \<Rightarrow> string \<Rightarrow> string \<Rightarrow> string option route list" where
  "createRoutes files srcDir pagesDir = createRoutesWith sortRoutes files srcDir pagesDir"

section \<open>flatRoutes\<close>

text \<open>\<open>_path.replace(/^\/+$/, '/')\<close>: a string of slashes only becomes one slash.\<close>

definition onlySlashes :: "string \<Rightarrow> string" where
  "onlySlashes p = (if p \<noteq> [] \<and> (\<forall>c \<in> set p. c = CHR ''/'') then ''/'' else p)"

text \<open>
  \<open>flatRoutes(router, _path, routes)\<close>. The array \<open>routes\<close> is shared by the
  recursive calls and \<open>_path\<close> is reassigned in the leaf branch, so both are threaded
  through the loop over \<open>router\<close>. An empty \<open>children\<close> array is truthy.
\<close>

fun flatRoutes :: "'n route list \<Rightarrow> string \<Rightarrow> string list \<Rightarrow> string list" where
  "flatRoutes [] p routes = routes"
| "flatRoutes (Route nm rp cref chunk kids # router) p routes =
     (if CHR '':'' \<notin> set rp \<and> CHR ''*'' \<notin> set rp then
        (case kids of
           Some cs \<Rightarrow>
             flatRoutes router p
               (flatRoutes cs (p @ rp @ ''/'')
                  (if p = [] \<and> rp = ''/'' then routes @ [''/''] else routes))
         | None \<Rightarrow>
             (let p1 = onlySlashes p
              in flatRoutes router p1
                   (routes @ [(if rp = [] \<and> p1 \<noteq> [] \<and> last p1 = CHR ''/'' then butlast p1 else p1) @ rp])))
      else flatRoutes router p routes)"

section \<open>Classes of paths\<close>

text \<open>
  The class of the first token of a path that starts with a slash (the token after the
  leading slash), as \<open>tokenClass\<close> reads it.
\<close>

definition firstClass :: "string \<Rightarrow> int" where
  "firstClass p = (case split CHR ''/'' p of a # t # ts \<Rightarrow> tokenClass t | _ \<Rightarrow> 0)"

text \<open>
  The rank of a path among its siblings: the empty path, then a path whose first token
  is static, then \<open>/\<close>, then a path whose first token holds a colon, then a path
  whose first token is the star.
\<close>

definition pathRank :: "string \<Rightarrow> nat" where
  "pathRank p =
     (if p = [] then 0 else if p = ''/'' then 2
      else if firstClass p = 0 then 1 else if firstClass p = 1 then 3 else 4)"

text \<open>
  The comparator classifies the first token of a path in two ways: by the regular
  expression \<open>/^\/(:|\*)/\<close> when the other path is \<open>/\<close>, and by
  \<open>tokenClass\<close> otherwise. A path is coherent when it is empty, or starts with a
  slash and both tests agree on it. The tests disagree on a first token such as
  \<open>*x\<close> or \<open>a:b\<close>.
\<close>

definition coherent :: "string \<Rightarrow> bool" where
  "coherent p = (p = [] \<or> (starts_with ''/'' p \<and> (dynamicStart p \<longleftrightarrow> 0 < firstClass p)))"

section \<open>Notions used to state the properties\<close>

subsection \<open>The nodes of a forest\<close>

text \<open>All nodes of a forest, parents before their children.\<close>

fun nodes :: "'n route list \<Rightarrow> 'n route list" where
  "nodes [] = []"
| "nodes (Route nm p cref chunk None # rs) = Route nm p cref chunk None # nodes rs"
| "nodes (Route nm p cref chunk (Some cs) # rs) = Route nm p cref chunk (Some cs) # nodes cs @ nodes rs"

definition kidsOf :: "'n route \<Rightarrow> 'n route list" where
  "kidsOf r = (case children r of None \<Rightarrow> [] | Some cs \<Rightarrow> cs)"

text \<open>
  The sibling lists of a forest: the list of its roots and the \<open>children\<close> of
  every node that has them.
\<close>

definition siblingLists :: "'n route list \<Rightarrow> 'n route list list" where
  "siblingLists forest =
     forest # concat (map (\<lambda>r. case children r of None \<Rightarrow> [] | Some cs \<Rightarrow> [cs]) (nodes forest))"

text \<open>The multiset of the values of \<open>f\<close> on the nodes of a forest.\<close>

definition labels :: "('n route \<Rightarrow> 'a) \<Rightarrow> 'n route list \<Rightarrow> 'a multiset" where
  "labels f forest = mset (map f (nodes forest))"

text \<open>
  The files a forest represents: for every node its \<open>component\<close> (the source
  directory and the file) and its \<open>chunkName\<close>.
\<close>

definition represented :: "'n route list \<Rightarrow> ((string \<times> string) \<times> string option) multiset" where
  "represented forest = labels (\<lambda>r. (component r, chunkName r)) forest"

text \<open>The \<open>chunkName\<close> of the node of a file: it is assigned inside the loop over the keys.\<close>

definition chunkOf :: "string \<Rightarrow> string \<Rightarrow> string option" where
  "chunkOf pagesDir file = (if keysOf pagesDir file = [] then None else Some (strip_extension file))"

text \<open>The name that the loop over the keys gives to the route of a file.\<close>

definition derivedName :: "string \<Rightarrow> string \<Rightarrow> string" where
  "derivedName pagesDir file = foldl nextName [] (keysOf pagesDir file)"

text \<open>
  The value of the variable \<open>route\<close> when \<open>parent.push(route)\<close> runs: the walk of
  \<open>place\<close> without the insertion.
\<close>

fun pushed :: "string route list \<Rightarrow> string list \<Rightarrow> nat \<Rightarrow> nat \<Rightarrow> string \<Rightarrow> string route \<Rightarrow> string route" where
  "pushed parent [] i n file route = route"
| "pushed parent (key # keys) i n file route =
     (let nm = nextName (name route) key;
          chunk = Some (strip_extension file)
      in case findIndex (\<lambda>c. name c = nm) parent of
           Some k \<Rightarrow> pushed (kidsOf (parent ! k)) keys (i + 1) n file
                       (Route nm [] (component route) chunk (children route))
         | None \<Rightarrow> pushed parent keys (i + 1) n file
                     (Route nm (path route @ pathPart key i n) (component route) chunk (children route)))"

text \<open>A key that holds no colon and no star (a key never holds a slash).\<close>

definition plainKey :: "string \<Rightarrow> bool" where
  "plainKey key = (CHR '':'' \<notin> set key \<and> CHR ''*'' \<notin> set key \<and> CHR ''/'' \<notin> set key)"

subsection \<open>The walk of one file\<close>


subsection \<open>Tokens of a path\<close>



subsection \<open>The index siblings of a list\<close>



subsection \<open>The final pass\<close>

text \<open>\<open>route.children && route.children.find(child => child.path === '')\<close>.\<close>

definition emptyPathChild :: "'n route \<Rightarrow> bool" where
  "emptyPathChild r = (case children r of None \<Rightarrow> False | Some cs \<Rightarrow> \<exists>child \<in> set cs. path child = [])"

text \<open>The same node with no \<open>children\<close> property.\<close>

definition withoutChildren :: "'n route \<Rightarrow> 'n route" where
  "withoutChildren r = Route (name r) (path r) (component r) (chunkName r) None"

subsection \<open>Flattening\<close>

text \<open>\<open>r.path.includes(':') || r.path.includes('*')\<close>.\<close>

definition parameterised :: "string \<Rightarrow> bool" where
  "parameterised p = (CHR '':'' \<in> set p \<or> CHR ''*'' \<in> set p)"

text \<open>
  \<open>(r.path === '' && _path[_path.length - 1] === '/' ? _path.slice(0, -1) : _path) + r.path\<close>:
  the string that \<open>flatRoutes\<close> pushes for a node without children.
\<close>

definition joinPath :: "string \<Rightarrow> string \<Rightarrow> string" where
  "joinPath p rp = (if rp = [] \<and> p \<noteq> [] \<and> last p = CHR ''/'' then butlast p else p) @ rp"

text \<open>
  The nodes without \<open>children\<close> that are reached through nodes that are not
  parameterised, themselves not parameterised.
\<close>

fun leaves :: "'n route list \<Rightarrow> nat" where
  "leaves [] = 0"
| "leaves (Route nm rp cref chunk None # rs) = (if parameterised rp then 0 else 1) + leaves rs"
| "leaves (Route nm rp cref chunk (Some cs) # rs) = (if parameterised rp then 0 else leaves cs) + leaves rs"

text \<open>The nodes of one sibling list that have \<open>children\<close>, the path \<open>/\<close> and no parameter.\<close>

fun rootPushes :: "'n route list \<Rightarrow> nat" where
  "rootPushes [] = 0"
| "rootPushes (r # rs) =
     (if \<not> parameterised (path r) \<and> children r \<noteq> None \<and> path r = ''/'' then 1 else 0) + rootPushes rs"

section \<open>The comparator always returns a number\<close>

lemma compareLoop_stop: "res \<noteq> 0 \<Longrightarrow> compareLoop ta tb i res = Some (i, res)"
  by (subst compareLoop.simps) simp


lemma compareLoop_returns:
  "res \<noteq> 0 \<or> i < length tb \<Longrightarrow> \<exists>s. compareLoop ta tb i res = Some s"
proof (induction ta tb i res rule: compareLoop.induct)
  case (1 ta tb i res)
  show ?case
  proof (cases "i < length ta \<and> res = 0")
    case False
    then show ?thesis by (subst compareLoop.simps) auto
  next
    case True
    with "1.prems" have itb: "i < length tb" by simp
    let ?R = "(if int i = int (length tb) - 1 \<and> tokenClass (ta ! i) - tokenClass (tb ! i) = 0
               then (if ta ! i = ''*'' then - 1 else 1)
               else tokenClass (ta ! i) - tokenClass (tb ! i))"
    have pre: "?R \<noteq> 0 \<or> i + 1 < length tb"
      using itb by (cases "int i = int (length tb) - 1") auto
    have c1: "i < length ta" and c2: "\<not> res \<noteq> 0" using True by auto
    have "\<exists>s. compareLoop ta tb (i + 1) ?R = Some s"
      using "1.IH" [OF c1 c2 itb refl refl refl refl] pre by blast
    moreover have "compareLoop ta tb i res = compareLoop ta tb (i + 1) ?R"
      using True itb by (subst compareLoop.simps) (simp add: Let_def)
    ultimately show ?thesis by simp
  qed
qed

lemma split_nonempty: "split c s \<noteq> []"
  by (induction s) (auto split: list.splits)

lemma compareRoutes_returns: "\<exists>order. compareRoutes a b = Some order"
proof -
  have "0 < length (split CHR ''/'' (path b))"
    using split_nonempty by simp
  then obtain s where "compareLoop (split CHR ''/'' (path a)) (split CHR ''/'' (path b)) 0 0 = Some s"
    using compareLoop_returns by blast
  then show ?thesis
    by (cases s) (simp add: compareRoutes_def Let_def)
qed

section \<open>The sort meets the contract\<close>

text \<open>
  A list that is settled is in the order of every rank function with which the
  comparator agrees on elements of different rank, whatever the comparator answers for
  elements of equal rank.
\<close>

lemma settled_Nil [simp]: "settled cmp []"
  by (simp add: settled_def)

lemma settled_single [simp]: "settled cmp [x]"
  by (simp add: settled_def)

lemma settled_ranked:
  assumes "settled cmp a"
    and "\<forall>x \<in> set a. \<forall>y \<in> set a. k y < k x \<longrightarrow> inverted cmp x y"
  shows "sorted (map k a)"
proof -
  have "successively (\<lambda>x y. \<not> inverted cmp x y) a"
    using assms(1) by (simp add: settled_def)
  then have "successively (\<lambda>x y. k x \<le> k y) a"
    by (rule successively_mono) (use assms(2) in \<open>auto simp: not_less [symmetric]\<close>)
  then have "sorted_wrt (\<lambda>x y. k x \<le> k y) a"
    by (subst (asm) successively_conv_sorted_wrt) (auto simp: transp_def)
  then show ?thesis by (simp add: sorted_map)
qed

lemma runEnd_le: "runEnd cmp d p rest \<le> length rest"
  by (induction rest arbitrary: p) (auto simp: Let_def)

lemma runEnd_ascending:
  "successively (\<lambda>x y. 0 \<le> cmp y x) (p # take (runEnd cmp False p rest) rest)"
  by (induction rest arbitrary: p) (auto simp: Let_def)

lemma runEnd_descending:
  "successively (\<lambda>x y. cmp y x < 0) (p # take (runEnd cmp True p rest) rest)"
  by (induction rest arbitrary: p) (auto simp: Let_def)

lemma countAndMakeRun_mset:
  "countAndMakeRun cmp a = (run, rest) \<Longrightarrow> mset run + mset rest = mset a"
  by (auto simp: countAndMakeRun_def Let_def split: list.splits if_splits)
     (metis append_take_drop_id mset_append mset_rev union_code)+

lemma countAndMakeRun_settled:
  assumes "countAndMakeRun cmp a = (run, rest)"
  shows "settled cmp run"
proof (cases a)
  case Nil
  then show ?thesis using assms by (simp add: countAndMakeRun_def)
next
  case (Cons low a')
  show ?thesis
  proof (cases a')
    case Nil
    then show ?thesis using assms Cons by (auto simp: countAndMakeRun_def)
  next
    case (Cons nxt rest')
    note a = \<open>a = low # a'\<close> Cons
    let ?n = "runEnd cmp (cmp nxt low < 0) nxt rest'"
    have tk: "take (2 + ?n) a = low # nxt # take ?n rest'"
      by (simp add: a)
    show ?thesis
    proof (cases "cmp nxt low < 0")
      case True
      have "successively (\<lambda>x y. cmp y x < 0) (low # nxt # take ?n rest')"
        using True runEnd_descending [of cmp nxt rest'] by simp
      then have "successively (\<lambda>x y. \<not> inverted cmp y x) (low # nxt # take ?n rest')"
        by (rule successively_mono) (auto simp: inverted_def)
      then have "settled cmp (rev (low # nxt # take ?n rest'))"
        unfolding settled_def by (subst successively_rev)
      moreover have "run = rev (low # nxt # take ?n rest')"
        using assms True tk by (simp add: countAndMakeRun_def a Let_def)
      ultimately show ?thesis by simp
    next
      case False
      have "successively (\<lambda>x y. 0 \<le> cmp y x) (low # nxt # take ?n rest')"
        using False runEnd_ascending [of cmp nxt rest'] by simp
      then have "successively (\<lambda>x y. \<not> inverted cmp x y) (low # nxt # take ?n rest')"
        by (rule successively_mono) (auto simp: inverted_def)
      moreover have "run = low # nxt # take ?n rest'"
        using assms False tk by (simp add: countAndMakeRun_def a Let_def)
      ultimately show ?thesis by (simp add: settled_def)
    qed
  qed
qed

lemma binarySearch_place:
  assumes "left \<le> right" "right \<le> length a"
    and "0 < left \<longrightarrow> 0 \<le> cmp pivot (a ! (left - 1))"
    and "right < length a \<longrightarrow> cmp pivot (a ! right) < 0"
  shows "left \<le> binarySearch cmp pivot a left right \<and> binarySearch cmp pivot a left right \<le> right
       \<and> (0 < binarySearch cmp pivot a left right
            \<longrightarrow> 0 \<le> cmp pivot (a ! (binarySearch cmp pivot a left right - 1)))
       \<and> (binarySearch cmp pivot a left right < length a
            \<longrightarrow> cmp pivot (a ! binarySearch cmp pivot a left right) < 0)"
  using assms
proof (induction cmp pivot a left right rule: binarySearch.induct)
  case (1 cmp pivot a left right)
  show ?case
  proof (cases "left < right")
    case False
    then show ?thesis using "1.prems" by (subst (1 2 3 4 5 6) binarySearch.simps) simp
  next
    case True
    let ?mid = "left + (right - left) div 2"
    have mid: "left \<le> ?mid" "?mid < right" using True by auto
    show ?thesis
    proof (cases "cmp pivot (a ! ?mid) < 0")
      case lt: True
      have eq: "binarySearch cmp pivot a left right = binarySearch cmp pivot a left ?mid"
        using True lt by (subst binarySearch.simps) (simp add: Let_def)
      have "left \<le> binarySearch cmp pivot a left ?mid \<and> binarySearch cmp pivot a left ?mid \<le> ?mid
       \<and> (0 < binarySearch cmp pivot a left ?mid
            \<longrightarrow> 0 \<le> cmp pivot (a ! (binarySearch cmp pivot a left ?mid - 1)))
       \<and> (binarySearch cmp pivot a left ?mid < length a
            \<longrightarrow> cmp pivot (a ! binarySearch cmp pivot a left ?mid) < 0)"
        using "1.IH"(1) [OF True refl lt] mid "1.prems" lt by simp
      then show ?thesis unfolding eq using mid by auto
    next
      case ge: False
      have eq: "binarySearch cmp pivot a left right = binarySearch cmp pivot a (?mid + 1) right"
        using True ge by (subst binarySearch.simps) (simp add: Let_def)
      have "?mid + 1 \<le> binarySearch cmp pivot a (?mid + 1) right \<and> binarySearch cmp pivot a (?mid + 1) right \<le> right
       \<and> (0 < binarySearch cmp pivot a (?mid + 1) right
            \<longrightarrow> 0 \<le> cmp pivot (a ! (binarySearch cmp pivot a (?mid + 1) right - 1)))
       \<and> (binarySearch cmp pivot a (?mid + 1) right < length a
            \<longrightarrow> cmp pivot (a ! binarySearch cmp pivot a (?mid + 1) right) < 0)"
        using "1.IH"(2) [OF True refl ge] mid "1.prems" ge by simp
      then show ?thesis unfolding eq using mid by auto
    qed
  qed
qed

lemma mset_binaryInsert: "mset (binaryInsert cmp a pivot) = add_mset pivot (mset a)"
  by (simp add: binaryInsert_def Let_def) (metis append_take_drop_id mset_append)

lemma settled_binaryInsert:
  assumes "settled cmp a"
  shows "settled cmp (binaryInsert cmp a pivot)"
proof -
  let ?pos = "binarySearch cmp pivot a 0 (length a)"
  have pos: "?pos \<le> length a"
    and lo: "0 < ?pos \<longrightarrow> 0 \<le> cmp pivot (a ! (?pos - 1))"
    and hi: "?pos < length a \<longrightarrow> cmp pivot (a ! ?pos) < 0"
    using binarySearch_place [of 0 "length a" a cmp pivot] by simp_all
  have "successively (\<lambda>x y. \<not> inverted cmp x y) (take ?pos a @ drop ?pos a)"
    using assms by (simp add: settled_def)
  then have parts: "successively (\<lambda>x y. \<not> inverted cmp x y) (take ?pos a)"
      "successively (\<lambda>x y. \<not> inverted cmp x y) (drop ?pos a)"
    unfolding successively_append_iff by blast+
  have l: "take ?pos a \<noteq> [] \<Longrightarrow> \<not> inverted cmp (last (take ?pos a)) pivot"
    using lo pos by (auto simp: inverted_def last_conv_nth min_def)
  have h: "drop ?pos a \<noteq> [] \<Longrightarrow> \<not> inverted cmp pivot (hd (drop ?pos a))"
    using hi pos by (auto simp: inverted_def hd_drop_conv_nth)
  show ?thesis
    using parts l h
    unfolding settled_def binaryInsert_def Let_def
    by (auto simp: successively_append_iff successively_Cons)
qed

lemma mset_binaryInsertionSort:
  "mset (binaryInsertionSort cmp run rest) = mset run + mset rest"
  unfolding binaryInsertionSort_def
  by (induction rest arbitrary: run) (simp_all add: mset_binaryInsert)

lemma settled_binaryInsertionSort:
  "settled cmp run \<Longrightarrow> settled cmp (binaryInsertionSort cmp run rest)"
  unfolding binaryInsertionSort_def
  by (induction rest arbitrary: run) (simp_all add: settled_binaryInsert)

lemma mset_timSort: "mset (timSort cmp a) = mset a"
  by (auto simp: timSort_def mset_binaryInsertionSort dest: countAndMakeRun_mset split: prod.splits)

lemma settled_timSort: "settled cmp (timSort cmp a)"
proof (cases "length a < 2")
  case True
  then show ?thesis
    by (cases a; cases "tl a") (auto simp: timSort_def)
next
  case False
  then show ?thesis
    by (auto simp: timSort_def settled_binaryInsertionSort dest: countAndMakeRun_settled split: prod.splits)
qed

lemma sortsBy_timSort: "sortsBy cmp (timSort cmp)"
  by (simp add: sortsBy_def rearranges_def mset_timSort settled_timSort)

section \<open>What the comparator answers\<close>

lemma comparefn_empty_left: "path a = [] \<Longrightarrow> comparefn a b = - 1"
  by (simp add: comparefn_def compareRoutes_def)

lemma comparefn_empty_right: "path a \<noteq> [] \<Longrightarrow> path b = [] \<Longrightarrow> comparefn a b = 1"
  by (simp add: comparefn_def compareRoutes_def)

lemma comparefn_root_left:
  "path a = ''/'' \<Longrightarrow> path b \<noteq> [] \<Longrightarrow> comparefn a b = (if dynamicStart (path b) then - 1 else 1)"
  by (simp add: comparefn_def compareRoutes_def)

lemma comparefn_root_right:
  "path b = ''/'' \<Longrightarrow> path a \<noteq> [] \<Longrightarrow> path a \<noteq> ''/'' \<Longrightarrow>
   comparefn a b = (if dynamicStart (path a) then 1 else - 1)"
  by (simp add: comparefn_def compareRoutes_def)

lemma compareLoop_differ:
  assumes "k < length ta" "k < length tb"
    and "\<forall>j<k. tokenClass (ta ! j) = tokenClass (tb ! j)"
    and "tokenClass (ta ! k) \<noteq> tokenClass (tb ! k)"
    and "i \<le> k"
  shows "compareLoop ta tb i 0 = Some (k + 1, tokenClass (ta ! k) - tokenClass (tb ! k))"
  using assms(5)
proof (induction "k - i" arbitrary: i)
  case 0
  then have "i = k" by simp
  then show ?case
    using assms(1,2,4) by (subst compareLoop.simps) (simp add: Let_def compareLoop_stop)
next
  case (Suc d)
  then have lt: "i < k" and le: "i + 1 \<le> k" and d: "d = k - (i + 1)" by auto
  have "compareLoop ta tb i 0 = compareLoop ta tb (i + 1) 0"
    using lt assms(1,2,3) by (subst compareLoop.simps) (simp add: Let_def)
  then show ?case using Suc.hyps(1) [OF d le] by simp
qed

lemma comparefn_differ:
  assumes "path a \<noteq> []" "path a \<noteq> ''/''" "path b \<noteq> []" "path b \<noteq> ''/''"
    and "k < length (split CHR ''/'' (path a))" "k < length (split CHR ''/'' (path b))"
    and "\<forall>j<k. tokenClass (split CHR ''/'' (path a) ! j) = tokenClass (split CHR ''/'' (path b) ! j)"
    and "tokenClass (split CHR ''/'' (path a) ! k) \<noteq> tokenClass (split CHR ''/'' (path b) ! k)"
  shows "comparefn a b =
         tokenClass (split CHR ''/'' (path a) ! k) - tokenClass (split CHR ''/'' (path b) ! k)"
  using assms(1-4) assms(8) compareLoop_differ [OF assms(5-8), of 0]
  by (simp add: comparefn_def compareRoutes_def Let_def)

lemma split_slash: "split CHR ''/'' (CHR ''/'' # s) = [] # split CHR ''/'' s"
  by simp

lemma starts_with_slash: "starts_with ''/'' p \<longleftrightarrow> (\<exists>s. p = CHR ''/'' # s)"
  by (cases p) (auto simp: starts_with_def)

lemma tokenClass_range: "tokenClass t = 0 \<or> tokenClass t = 1 \<or> tokenClass t = 2"
  by (simp add: tokenClass_def)

lemma firstClass_range: "firstClass p = 0 \<or> firstClass p = 1 \<or> firstClass p = 2"
  using tokenClass_range by (auto simp: firstClass_def split: list.splits)

lemma comparefn_rank:
  assumes "coherent (path a)" "coherent (path b)"
  shows "pathRank (path b) < pathRank (path a) \<Longrightarrow> 0 < comparefn a b"
    and "pathRank (path a) < pathRank (path b) \<Longrightarrow> comparefn a b < 0"
proof -
  have generic: "comparefn a b = firstClass (path a) - firstClass (path b)"
    if ne: "path a \<noteq> []" "path a \<noteq> ''/''" "path b \<noteq> []" "path b \<noteq> ''/''"
      and diff: "firstClass (path a) \<noteq> firstClass (path b)"
  proof -
    obtain sa sb where pa: "path a = CHR ''/'' # sa" and pb: "path b = CHR ''/'' # sb"
      using assms ne by (auto simp: coherent_def starts_with_slash)
    obtain t ts where ta: "split CHR ''/'' sa = t # ts"
      using split_nonempty [of "CHR ''/''" sa] by (cases "split CHR ''/'' sa") auto
    obtain u us where tb: "split CHR ''/'' sb = u # us"
      using split_nonempty [of "CHR ''/''" sb] by (cases "split CHR ''/'' sb") auto
    have fa: "firstClass (CHR ''/'' # sa) = tokenClass t"
      and fb: "firstClass (CHR ''/'' # sb) = tokenClass u"
      by (simp_all add: firstClass_def ta tb)
    have "comparefn a b = tokenClass (split CHR ''/'' (path a) ! 1) - tokenClass (split CHR ''/'' (path b) ! 1)"
      by (rule comparefn_differ) (use ne diff fa fb in \<open>simp_all add: pa pb ta tb\<close>)
    then show ?thesis by (simp add: pa pb ta tb fa fb)
  qed
  show "0 < comparefn a b" if r: "pathRank (path b) < pathRank (path a)"
  proof (cases "path a = [] \<or> path b = [] \<or> path a = ''/'' \<or> path b = ''/''")
    case True
    then show ?thesis
      using r assms firstClass_range [of "path a"] firstClass_range [of "path b"]
      by (auto simp: pathRank_def coherent_def comparefn_empty_right comparefn_root_left
          comparefn_root_right split: if_splits)
  next
    case False
    then show ?thesis
      using r generic firstClass_range [of "path a"] firstClass_range [of "path b"]
      by (auto simp: pathRank_def split: if_splits)
  qed
  show "comparefn a b < 0" if r: "pathRank (path a) < pathRank (path b)"
  proof (cases "path a = [] \<or> path b = [] \<or> path a = ''/'' \<or> path b = ''/''")
    case True
    then show ?thesis
      using r assms firstClass_range [of "path a"] firstClass_range [of "path b"]
      by (auto simp: pathRank_def coherent_def comparefn_empty_left comparefn_root_left
          comparefn_root_right split: if_splits)
  next
    case False
    then show ?thesis
      using r generic firstClass_range [of "path a"] firstClass_range [of "path b"]
      by (auto simp: pathRank_def split: if_splits)
  qed
qed


section \<open>What the contract of the sort gives\<close>

lemma rearranged_set: "rearranges srt \<Longrightarrow> set (srt a) = set a"
  by (metis rearranges_def set_mset_mset)

lemma rearranged_length: "rearranges srt \<Longrightarrow> length (srt a) = length a"
  by (metis rearranges_def mset_eq_length)

lemma rearranged_Nil: "rearranges srt \<Longrightarrow> srt [] = []"
  using rearranged_length [of srt "[]"] by simp

lemma settled_rank_order:
  assumes "settled comparefn l" and "\<forall>r \<in> set l. coherent (path r)"
  shows "sorted (map (\<lambda>r. pathRank (path r)) l)"
  using assms(1)
proof (rule settled_ranked)
  show "\<forall>x \<in> set l. \<forall>y \<in> set l. pathRank (path y) < pathRank (path x) \<longrightarrow> inverted comparefn x y"
  proof (intro ballI impI)
    fix x y
    assume "x \<in> set l" "y \<in> set l" and less: "pathRank (path y) < pathRank (path x)"
    then have cx: "coherent (path x)" and cy: "coherent (path y)" using assms(2) by auto
    show "inverted comparefn x y"
      unfolding inverted_def
      using comparefn_rank(1) [OF cx cy less] comparefn_rank(2) [OF cy cx less] by simp
  qed
qed

lemma ranked_before:
  assumes "sorted (map k ys)" "i < length ys" "j < length ys" "k (ys ! i) < k (ys ! j)"
  shows "i < j"
proof (rule ccontr)
  assume "\<not> i < j"
  then have "j \<le> i" by simp
  then have "map k ys ! j \<le> map k ys ! i"
    using assms(1,2) by (intro sorted_nth_mono) simp_all
  then show False using assms(2-4) by simp
qed

lemma settled_empty_first:
  assumes "settled comparefn l"
  shows "sorted (map (\<lambda>r. if path r = [] then 0 else (1::nat)) l)"
  using assms
proof (rule settled_ranked)
  show "\<forall>x \<in> set l. \<forall>y \<in> set l.
          (if path y = [] then 0 else (1::nat)) < (if path x = [] then 0 else 1) \<longrightarrow> inverted comparefn x y"
    by (auto simp: inverted_def comparefn_empty_left comparefn_empty_right split: if_splits)
qed

text \<open>The comparator reads the paths only.\<close>

lemma comparefn_paths: "path a = path a' \<Longrightarrow> path b = path b' \<Longrightarrow> comparefn a b = comparefn a' b'"
  by (simp add: comparefn_def compareRoutes_def)

lemma settled_paths:
  fixes l l' :: "'n route list"
  assumes "map path l = map path l'" and "settled comparefn l"
  shows "settled comparefn l'"
proof -
  define mk where "mk = (\<lambda>p. Route undefined p undefined None None :: 'n route)"
  define Q where "Q = (\<lambda>p q. \<not> inverted comparefn (mk p) (mk q))"
  have "comparefn x y = comparefn (mk (path x)) (mk (path y))" for x y :: "'n route"
    by (rule comparefn_paths) (simp_all add: mk_def)
  then have eq: "(\<lambda>x y :: 'n route. \<not> inverted comparefn x y) = (\<lambda>x y. Q (path x) (path y))"
    by (intro ext) (simp add: inverted_def Q_def)
  have "settled comparefn m \<longleftrightarrow> successively Q (map path m)" for m :: "'n route list"
    unfolding settled_def eq by (simp add: successively_map)
  then show ?thesis using assms by simp
qed

text \<open>The sort of V8 meets the contract.\<close>

lemma mset_sortRoutes: "mset (sortRoutes parent) = mset parent"
  by (simp add: sortRoutes_def mset_timSort)

lemma rearranges_sortRoutes: "rearranges sortRoutes"
  by (simp add: rearranges_def mset_sortRoutes)

lemma sortsBy_sortRoutes: "sortsBy comparefn sortRoutes"
  using sortsBy_timSort [of comparefn] by (simp add: sortsBy_def rearranges_def sortRoutes_def)

section \<open>Every file is placed once\<close>

lemma nodes_Cons: "nodes (r # rs) = r # nodes (kidsOf r) @ nodes rs"
  by (cases r; cases "children r") (auto simp: kidsOf_def)

lemma nodes_append: "nodes (xs @ ys) = nodes xs @ nodes ys"
  by (induction xs) (simp_all add: nodes_Cons)

lemma labels_Nil: "labels f [] = {#}"
  by (simp add: labels_def)

lemma labels_Cons: "labels f (r # rs) = add_mset (f r) (labels f (kidsOf r) + labels f rs)"
  by (simp add: labels_def nodes_Cons)

lemma labels_append: "labels f (xs @ ys) = labels f xs + labels f ys"
  by (simp add: labels_def nodes_append)

lemma labels_sum: "labels f rs = (\<Sum>r \<in># mset rs. labels f [r])"
  by (induction rs) (simp_all add: labels_Nil labels_Cons)

lemma labels_permuted: "mset xs = mset ys \<Longrightarrow> labels f xs = labels f ys"
  by (simp add: labels_sum [of f xs] labels_sum [of f ys])

lemma labels_sorted: "rearranges srt \<Longrightarrow> labels f (srt parent) = labels f parent"
  by (rule labels_permuted) (simp add: rearranges_def)

lemma labels_update:
  assumes "k < length xs" and "labels f [r] = labels f [xs ! k] + M"
  shows "labels f (xs[k := r]) = labels f xs + M"
proof -
  have "xs = take k xs @ [xs ! k] @ drop (Suc k) xs"
    using assms(1) by (simp add: id_take_nth_drop [symmetric])
  then have "labels f xs = labels f (take k xs) + labels f [xs ! k] + labels f (drop (Suc k) xs)"
    by (metis labels_append add.assoc)
  moreover have "xs[k := r] = take k xs @ [r] @ drop (Suc k) xs"
    using assms(1) by (simp add: upd_conv_take_nth_drop)
  then have "labels f (xs[k := r]) = labels f (take k xs) + labels f [r] + labels f (drop (Suc k) xs)"
    by (metis labels_append add.assoc)
  ultimately show ?thesis using assms(2) by simp
qed

lemma findIndex_Some: "findIndex P xs = Some k \<Longrightarrow> k < length xs \<and> P (xs ! k)"
  by (induction xs arbitrary: k) (auto split: if_splits)

lemma children_pushed: "children (pushed parent keys i n file route) = children route"
  by (induction keys arbitrary: parent i route) (auto simp: Let_def split: option.splits)

lemma component_pushed: "component (pushed parent keys i n file route) = component route"
  by (induction keys arbitrary: parent i route) (auto simp: Let_def split: option.splits)

lemma chunkName_pushed:
  "chunkName (pushed parent keys i n file route) =
     (if keys = [] then chunkName route else Some (strip_extension file))"
  by (induction keys arbitrary: parent i route) (auto simp: Let_def split: option.splits)

text \<open>
  \<open>place\<close> adds one node, the pushed route, and changes no other node but in its
  \<open>children\<close>.
\<close>

lemma labels_place:
  assumes "\<And>nm p cref chunk kids kids'. f (Route nm p cref chunk kids) = f (Route nm p cref chunk kids')"
    and "children route = None" and perm: "rearranges srt"
  shows "labels f (place srt parent keys i n file route) =
         add_mset (f (pushed parent keys i n file route)) (labels f parent)"
  using assms(2)
proof (induction keys arbitrary: parent i route)
  case Nil
  then show ?case
    by (simp add: labels_sorted [OF perm] labels_append labels_Cons labels_Nil kidsOf_def)
next
  case (Cons key keys)
  let ?nm = "nextName (name route) key"
  show ?case
  proof (cases "findIndex (\<lambda>c. name c = ?nm) parent")
    case None
    then show ?thesis
      using Cons.IH [of "Route ?nm (path route @ pathPart key i n) (component route)
                           (Some (strip_extension file)) (children route)" parent "i + 1"] Cons.prems
      by (simp add: Let_def)
  next
    case (Some k)
    then have k: "k < length parent" using findIndex_Some by fastforce
    let ?child = "parent ! k"
    let ?route = "Route ?nm [] (component route) (Some (strip_extension file)) (children route)"
    let ?new = "Route (name ?child) (path ?child) (component ?child) (chunkName ?child)
                  (Some (place srt (kidsOf ?child) keys (i + 1) n file ?route))"
    have same: "f ?new = f ?child"
      using assms(1) [of "name ?child" "path ?child" "component ?child" "chunkName ?child" _ "children ?child"]
      by simp
    have "labels f [?new] = labels f [?child] +
            {# f (pushed (kidsOf ?child) keys (i + 1) n file ?route) #}"
      using Cons.IH [of ?route "kidsOf ?child" "i + 1"] Cons.prems same
      by (simp add: labels_Cons labels_Nil kidsOf_def)
    then have "labels f (parent[k := ?new]) = labels f parent +
            {# f (pushed (kidsOf ?child) keys (i + 1) n file ?route) #}"
      by (rule labels_update [OF k])
    then show ?thesis
      using Some by (simp add: Let_def kidsOf_def)
  qed
qed

lemma represented_addFile:
  assumes perm: "rearranges srt"
  shows "represented (addFile srt srcDir pagesDir routes file) =
     add_mset ((srcDir, file), chunkOf pagesDir file) (represented routes)"
proof -
  let ?keys = "keysOf pagesDir file"
  let ?route = "Route [] [] (srcDir, file) None None :: string route"
  have "represented (place srt routes ?keys 0 (length ?keys) file ?route) =
        add_mset (component (pushed routes ?keys 0 (length ?keys) file ?route),
                  chunkName (pushed routes ?keys 0 (length ?keys) file ?route)) (represented routes)"
    unfolding represented_def by (rule labels_place) (simp_all add: perm)
  then show ?thesis
    by (simp add: addFile_def Let_def component_pushed chunkName_pushed chunkOf_def)
qed

lemma represented_foldl_addFile:
  assumes perm: "rearranges srt"
  shows "represented (foldl (addFile srt srcDir pagesDir) routes files) =
     represented routes + mset (map (\<lambda>file. ((srcDir, file), chunkOf pagesDir file)) files)"
  by (induction files arbitrary: routes) (simp_all add: represented_addFile [OF perm])

lemma represented_buildRoutes:
  assumes perm: "rearranges srt"
  shows "represented (buildRoutes srt files srcDir pagesDir) =
     mset (map (\<lambda>file. ((srcDir, file), chunkOf pagesDir file)) files)"
  by (simp add: buildRoutes_def represented_foldl_addFile [OF perm]) (simp add: represented_def labels_Nil)

lemma represented_clean:
  "represented (cleanChildrenRoutes routes isChild) = represented routes"
  "represented [cleanRoute start routesIndex isChild route] = represented [route]"
  "represented (cleanEach start routesIndex isChild routes) = represented routes"
proof (induction routes isChild and start routesIndex isChild route and start routesIndex isChild routes
    rule: cleanChildrenRoutes_cleanRoute_cleanEach.induct)
  case (1 routes isChild)
  then show ?case by (simp split: prod.splits)
next
  case (2 start routesIndex isChild nm p cref chunk kids)
  then show ?case
    by (cases kids) (simp_all add: represented_def labels_Cons labels_Nil kidsOf_def Let_def)
next
  case (3 start routesIndex isChild)
  then show ?case by (simp add: represented_def labels_Nil)
next
  case (4 start routesIndex isChild route routes)
  have cons: "represented (r # rs) = represented [r] + represented rs" for r :: "'a route" and rs
    using labels_append [of _ "[r]" rs] by (simp add: represented_def)
  have "represented (cleanEach start routesIndex isChild (route # routes)) =
        represented [cleanRoute start routesIndex isChild route] +
        represented (cleanEach start routesIndex isChild routes)"
    by (simp only: cleanEach.simps) (rule cons)
  also have "\<dots> = represented [route] + represented routes"
    by (simp only: 4)
  also have "\<dots> = represented (route # routes)"
    by (rule cons [symmetric])
  finally show ?case .
qed

lemma represented_createRoutesWith:
  assumes perm: "rearranges srt"
  shows "represented (createRoutesWith srt files srcDir pagesDir) =
     mset (map (\<lambda>file. ((srcDir, file), chunkOf pagesDir file)) files)"
  by (simp only: createRoutesWith_def represented_clean(1) represented_buildRoutes [OF perm])

lemma represented_createRoutes:
  "represented (createRoutes files srcDir pagesDir) =
     mset (map (\<lambda>file. ((srcDir, file), chunkOf pagesDir file)) files)"
  unfolding createRoutes_def by (rule represented_createRoutesWith) (rule rearranges_sortRoutes)

lemma name_pushed: "name (pushed parent keys i n file route) = foldl nextName (name route) keys"
  by (induction keys arbitrary: parent i route) (auto simp: Let_def split: option.splits)

lemma named_addFile:
  assumes perm: "rearranges srt"
  shows "labels (\<lambda>r. (component r, name r)) (addFile srt srcDir pagesDir routes file) =
     add_mset ((srcDir, file), derivedName pagesDir file) (labels (\<lambda>r. (component r, name r)) routes)"
proof -
  let ?keys = "keysOf pagesDir file"
  let ?route = "Route [] [] (srcDir, file) None None :: string route"
  have "labels (\<lambda>r. (component r, name r)) (place srt routes ?keys 0 (length ?keys) file ?route) =
        add_mset (component (pushed routes ?keys 0 (length ?keys) file ?route),
                  name (pushed routes ?keys 0 (length ?keys) file ?route))
          (labels (\<lambda>r. (component r, name r)) routes)"
    by (rule labels_place) (simp_all add: perm)
  then show ?thesis
    by (simp add: addFile_def Let_def component_pushed name_pushed derivedName_def)
qed

lemma named_foldl_addFile:
  assumes perm: "rearranges srt"
  shows "labels (\<lambda>r. (component r, name r)) (foldl (addFile srt srcDir pagesDir) routes files) =
     labels (\<lambda>r. (component r, name r)) routes
     + mset (map (\<lambda>file. ((srcDir, file), derivedName pagesDir file)) files)"
  by (induction files arbitrary: routes) (simp_all add: named_addFile [OF perm])

lemma named_buildRoutes:
  assumes perm: "rearranges srt"
  shows "labels (\<lambda>r. (component r, name r)) (buildRoutes srt files srcDir pagesDir) =
     mset (map (\<lambda>file. ((srcDir, file), derivedName pagesDir file)) files)"
  by (simp add: buildRoutes_def named_foldl_addFile [OF perm] labels_Nil)

section \<open>Paths built from plain keys are coherent\<close>

lemma split_plain: "c \<notin> set t \<Longrightarrow> split c t = [t]"
  by (induction t) auto

lemma split_no_separator: "t \<in> set (split c s) \<Longrightarrow> c \<notin> set t"
proof (induction s arbitrary: t)
  case Nil
  then show ?case by simp
next
  case (Cons x s)
  obtain u us where us: "split c s = u # us"
    using split_nonempty [of c s] by (cases "split c s") auto
  show ?case
    using Cons.prems Cons.IH [of u] Cons.IH [of t]
    by (auto simp: us split: if_splits)
qed

lemma hd_split_append: "hd (split c (s @ c # y)) = hd (split c s)"
  by (induction s) (auto simp: split_nonempty split: list.splits)

lemma firstClass_slash: "firstClass (CHR ''/'' # s) = tokenClass (hd (split CHR ''/'' s))"
  using split_nonempty [of "CHR ''/''" s]
  by (cases "split CHR ''/'' s") (auto simp: firstClass_def)

lemma coherent_slash_token:
  assumes "CHR ''/'' \<notin> set t"
  shows "coherent (CHR ''/'' # t) \<longleftrightarrow>
         ((\<exists>u. t = CHR '':'' # u \<or> t = CHR ''*'' # u) \<longleftrightarrow> 0 < tokenClass t)"
  using assms
  by (cases t) (auto simp: coherent_def firstClass_slash split_plain dynamicStart_def starts_with_def)

lemma coherent_pathPart:
  assumes "plainKey key"
  shows "coherent (pathPart key i n)"
proof (cases "key = ''index'' \<and> i + 1 = n")
  case True
  then show ?thesis
    by (auto simp: pathPart_def coherent_def starts_with_def dynamicStart_def firstClass_def tokenClass_def)
next
  case False
  show ?thesis
  proof (cases "starts_with ''_'' key")
    case False
    then have "pathPart key i n = CHR ''/'' # key"
      using \<open>\<not> (key = ''index'' \<and> i + 1 = n)\<close> by (auto simp: pathPart_def starts_with_def)
    moreover have "coherent (CHR ''/'' # key)"
      using assms by (subst coherent_slash_token) (auto simp: plainKey_def tokenClass_def)
    ultimately show ?thesis by simp
  next
    case True
    then obtain rest where key: "key = CHR ''_'' # rest"
      by (cases key) (auto simp: starts_with_def)
    show ?thesis
    proof (cases "rest = []")
      case True
      then have "pathPart key i n = ''/*''"
        using key by (simp add: pathPart_def starts_with_def)
      then show ?thesis
        by (simp add: coherent_def starts_with_def dynamicStart_def firstClass_def tokenClass_def)
    next
      case False
      then have "pathPart key i n = CHR ''/'' # (CHR '':'' # rest @ ''?'')"
        using key by (auto simp: pathPart_def starts_with_def)
      moreover have "coherent (CHR ''/'' # (CHR '':'' # rest @ ''?''))"
        using assms key by (subst coherent_slash_token) (auto simp: plainKey_def tokenClass_def)
      ultimately show ?thesis by simp
    qed
  qed
qed

lemma pathPart_shape: "pathPart key i n = [] \<or> (\<exists>y. pathPart key i n = CHR ''/'' # y)"
  by (auto simp: pathPart_def)

lemma coherent_append:
  assumes "coherent p" "p \<noteq> []"
  shows "coherent (p @ pathPart key i n)"
proof -
  obtain s where p: "p = CHR ''/'' # s"
    using assms by (auto simp: coherent_def starts_with_slash)
  consider "pathPart key i n = []" | y where "pathPart key i n = CHR ''/'' # y"
    using pathPart_shape by blast
  then show ?thesis
  proof cases
    case 1
    then show ?thesis using assms by simp
  next
    case 2
    have fc: "firstClass (p @ pathPart key i n) = firstClass p"
      by (simp add: p 2 firstClass_slash hd_split_append)
    have "dynamicStart (p @ pathPart key i n) = dynamicStart p"
    proof (cases s)
      case Nil
      then show ?thesis by (simp add: p 2 dynamicStart_def starts_with_def)
    next
      case (Cons a s')
      then show ?thesis by (simp add: p dynamicStart_def starts_with_def)
    qed
    then show ?thesis
      using assms(1) fc by (simp add: coherent_def p starts_with_def)
  qed
qed

lemma coherent_pushed:
  assumes "coherent (path route)" "\<forall>key \<in> set keys. plainKey key"
  shows "coherent (path (pushed parent keys i n file route))"
  using assms
proof (induction keys arbitrary: parent i route)
  case Nil
  then show ?case by simp
next
  case (Cons key keys)
  have step: "coherent (path route @ pathPart key i n)"
    using Cons.prems coherent_pathPart [of key i n] coherent_append [of "path route" key i n]
    by (cases "path route = []") auto
  have empty: "coherent []" by (simp add: coherent_def)
  show ?case
    using Cons.IH Cons.prems(2) step empty
    by (auto simp: Let_def split: option.splits)
qed

lemma place_paths_coherent:
  assumes "\<forall>p \<in># labels path parent. coherent p"
    and "coherent (path route)" "children route = None" "\<forall>key \<in> set keys. plainKey key"
    and perm: "rearranges srt"
  shows "\<forall>p \<in># labels path (place srt parent keys i n file route). coherent p"
proof -
  have "labels path (place srt parent keys i n file route) =
        add_mset (path (pushed parent keys i n file route)) (labels path parent)"
    by (rule labels_place) (simp_all add: assms(3) perm)
  then show ?thesis
    using assms(1) coherent_pushed [OF assms(2,4)] by simp
qed

lemma keysOf_no_slash: "key \<in> set (keysOf pagesDir file) \<Longrightarrow> CHR ''/'' \<notin> set key"
  unfolding keysOf_def
  by (metis list.sel(2) list.set_sel(2) split_no_separator)

lemma foldl_addFile_coherent:
  assumes "\<forall>file \<in> set files. \<forall>key \<in> set (keysOf pagesDir file). CHR '':'' \<notin> set key \<and> CHR ''*'' \<notin> set key"
    and "\<forall>p \<in># labels path routes. coherent p"
    and perm: "rearranges srt"
  shows "\<forall>p \<in># labels path (foldl (addFile srt srcDir pagesDir) routes files). coherent p"
  using assms(1,2)
proof (induction files arbitrary: routes)
  case Nil
  then show ?case by simp
next
  case (Cons f fs)
  have plain: "\<forall>key \<in> set (keysOf pagesDir f). plainKey key"
    using Cons.prems(1) keysOf_no_slash by (auto simp: plainKey_def)
  have "\<forall>p \<in># labels path (addFile srt srcDir pagesDir routes f). coherent p"
    unfolding addFile_def Let_def
    by (rule place_paths_coherent) (use Cons.prems(2) plain perm in \<open>simp_all add: coherent_def\<close>)
  then show ?case
    using Cons.IH [of "addFile srt srcDir pagesDir routes f"] Cons.prems(1) by simp
qed

lemma build_paths_coherent:
  assumes "\<forall>file \<in> set files. \<forall>key \<in> set (keysOf pagesDir file). CHR '':'' \<notin> set key \<and> CHR ''*'' \<notin> set key"
    and perm: "rearranges srt"
  shows "\<forall>r \<in> set (nodes (buildRoutes srt files srcDir pagesDir)). coherent (path r)"
proof -
  have "\<forall>p \<in># labels path (buildRoutes srt files srcDir pagesDir). coherent p"
    unfolding buildRoutes_def
    by (rule foldl_addFile_coherent) (use assms in \<open>simp_all add: labels_Nil\<close>)
  then show ?thesis by (simp add: labels_def)
qed

section \<open>The final pass, sibling list by sibling list\<close>

lemma cleanEach_map:
  "cleanEach start routesIndex isChild routes = map (cleanRoute start routesIndex isChild) routes"
  by (induction routes) simp_all

lemma cleanChildrenRoutes_map:
  "cleanChildrenRoutes routes isChild =
     map (cleanRoute (fst (indexScan routes (- 1, []))) (snd (indexScan routes (- 1, []))) isChild) routes"
  by (simp add: cleanEach_map split: prod.splits)

lemma name_cleanRoute:
  "name (cleanRoute start routesIndex isChild r) =
     (if emptyPathChild r then None else Some (strip_suffix ''-index'' (name r)))"
  by (cases r; cases "children r") (auto simp: emptyPathChild_def Let_def)

lemma path_cleanRoute:
  "path (cleanRoute start routesIndex isChild r) = cleanPath start routesIndex isChild (name r) (path r)"
  by (cases r; cases "children r") (auto simp: Let_def)

lemma children_cleanRoute:
  "children (cleanRoute start routesIndex isChild r) =
     map_option (\<lambda>cs. cleanChildrenRoutes cs True) (children r)"
  by (cases r; cases "children r") (auto simp: Let_def simp del: cleanChildrenRoutes.simps)

lemma component_cleanRoute: "component (cleanRoute start routesIndex isChild r) = component r"
  by (cases r; cases "children r") (auto simp: Let_def)

lemma indexScan_names:
  "map name xs = map name ys \<Longrightarrow> indexScan xs acc = indexScan ys acc"
proof (induction xs arbitrary: ys acc)
  case Nil
  then show ?case by simp
next
  case (Cons x xs)
  then obtain y ys' where ys: "ys = y # ys'" and n: "name x = name y" and rest: "map name xs = map name ys'"
    by (cases ys) auto
  show ?case
    using Cons.IH [OF rest] by (cases acc) (simp add: ys n Let_def)
qed

lemma strip_suffix_append: "strip_suffix t (s @ t) = s"
  by (simp add: strip_suffix_def ends_with_def)

lemma clean_names:
  "map name (cleanChildrenRoutes routes isChild) =
     map (\<lambda>r. if emptyPathChild r then None else Some (strip_suffix ''-index'' (name r))) routes"
  by (simp add: cleanChildrenRoutes_map name_cleanRoute del: cleanChildrenRoutes.simps)

lemma clean_deleted:
  "map (\<lambda>r. name r = None) (cleanChildrenRoutes routes isChild) = map emptyPathChild routes"
  by (simp add: cleanChildrenRoutes_map name_cleanRoute del: cleanChildrenRoutes.simps)

lemma clean_children:
  "map children (cleanChildrenRoutes routes isChild) =
     map (\<lambda>r. map_option (\<lambda>cs. cleanChildrenRoutes cs True) (children r)) routes"
  by (simp add: cleanChildrenRoutes_map [of routes] children_cleanRoute del: cleanChildrenRoutes.simps)

lemma clean_child_components:
  "map (\<lambda>r. map_option (map component) (children r)) (cleanChildrenRoutes routes isChild) =
   map (\<lambda>r. map_option (map component) (children r)) routes"
proof -
  have "map component (cleanChildrenRoutes cs True) = map component cs" for cs
    by (simp add: cleanChildrenRoutes_map [of cs] component_cleanRoute del: cleanChildrenRoutes.simps)
  then show ?thesis
    by (simp add: cleanChildrenRoutes_map [of routes] children_cleanRoute option.map_comp comp_def
        del: cleanChildrenRoutes.simps)
qed

lemma clean_paths_without_children:
  "map path (cleanChildrenRoutes routes isChild) =
   map path (cleanChildrenRoutes (map withoutChildren routes) isChild)"
proof -
  have "indexScan (map withoutChildren routes) (- 1, []) = indexScan routes (- 1, [])"
    by (rule indexScan_names) (simp add: withoutChildren_def comp_def)
  then show ?thesis
    by (simp add: cleanChildrenRoutes_map [of routes] cleanChildrenRoutes_map [of "map withoutChildren routes"]
        path_cleanRoute comp_def withoutChildren_def del: cleanChildrenRoutes.simps)
qed







section \<open>Counting what flatRoutes returns\<close>

lemma onlySlashes_empty: "onlySlashes p = [] \<longleftrightarrow> p = []"
  by (simp add: onlySlashes_def)

lemma flatRoutes_skips:
  "parameterised rp \<Longrightarrow>
   flatRoutes (Route nm rp cref chunk kids # router) p routes = flatRoutes router p routes"
  by (auto simp: parameterised_def)

lemma length_flatRoutes:
  "length (flatRoutes router p routes) =
     length routes + leaves router + (if p = [] then rootPushes router else 0)"
proof (induction router p routes rule: flatRoutes.induct)
  case (1 p routes)
  then show ?case by simp
next
  case (2 nm rp cref chunk kids router p routes)
  show ?case
  proof (cases "parameterised rp")
    case True
    then show ?thesis using 2 by (cases kids) (auto simp: parameterised_def)
  next
    case False
    then have st: "CHR '':'' \<notin> set rp \<and> CHR ''*'' \<notin> set rp" by (simp add: parameterised_def)
    show ?thesis
    proof (cases kids)
      case None
      then show ?thesis
        using False st "2.IH"
        by (simp add: Let_def onlySlashes_empty)
    next
      case (Some cs)
      then show ?thesis
        using False st "2.IH"
        by simp
    qed
  qed
qed

section \<open>Ties of the comparator\<close>





section \<open>Every sibling list keeps the order of its last sort\<close>

text \<open>
  A property of sibling lists that every sorted list has and that depends on the paths
  only holds of every sibling list of the forest that \<open>files.forEach\<close> builds: a
  list changes by \<open>push\<close> and \<open>sort\<close>, or in the \<open>children\<close> of one of its
  nodes.
\<close>

lemma siblingLists_iff:
  "l \<in> set (siblingLists forest) \<longleftrightarrow> l = forest \<or> Some l \<in># labels children forest"
  by (auto simp: siblingLists_def labels_def split: option.splits)

lemma labels_nth:
  assumes "k < length xs"
  shows "labels f xs = labels f (take k xs) + labels f [xs ! k] + labels f (drop (Suc k) xs)"
proof -
  have "xs = take k xs @ [xs ! k] @ drop (Suc k) xs"
    using assms by (simp add: id_take_nth_drop [symmetric])
  then show ?thesis by (metis labels_append add.assoc)
qed

lemma labels_list_update:
  assumes "k < length xs"
  shows "labels f (xs[k := r]) = labels f (take k xs) + labels f [r] + labels f (drop (Suc k) xs)"
proof -
  have "xs[k := r] = take k xs @ [r] @ drop (Suc k) xs"
    using assms by (simp add: upd_conv_take_nth_drop)
  then show ?thesis by (metis labels_append add.assoc)
qed

lemma place_keeps_lists:
  assumes sorted: "\<forall>l. P (srt l)" and perm: "rearranges srt"
    and paths: "\<forall>l l'. map path l = map path l' \<longrightarrow> P l \<longrightarrow> P l'"
    and "P parent" "\<forall>cs. Some cs \<in># labels children parent \<longrightarrow> P cs" "children route = None"
  shows "P (place srt parent keys i n file route) \<and>
         (\<forall>cs. Some cs \<in># labels children (place srt parent keys i n file route) \<longrightarrow> P cs)"
proof -
  have sortP: "P (srt l)" for l using sorted by blast
  have pathP: "map path l = map path l' \<Longrightarrow> P l \<Longrightarrow> P l'" for l l' using paths by blast
  show ?thesis
    using assms(4-6)
  proof (induction keys arbitrary: parent i route)
    case Nil
    have "labels children (srt (parent @ [route])) = add_mset None (labels children parent)"
      using Nil.prems(3)
      by (simp add: labels_sorted [OF perm] labels_append labels_Cons labels_Nil kidsOf_def)
    then show ?case using Nil.prems(2) sortP by simp
  next
    case (Cons key keys)
    let ?nm = "nextName (name route) key"
    show ?case
    proof (cases "findIndex (\<lambda>c. name c = ?nm) parent")
      case None
      then show ?thesis
        using Cons.IH [of parent "Route ?nm (path route @ pathPart key i n) (component route)
                             (Some (strip_extension file)) (children route)" "i + 1"] Cons.prems
        by (simp add: Let_def)
    next
      case (Some k)
      then have k: "k < length parent" using findIndex_Some by fastforce
      let ?child = "parent ! k"
      let ?route = "Route ?nm [] (component route) (Some (strip_extension file)) (children route)"
      let ?placed = "place srt (kidsOf ?child) keys (i + 1) n file ?route"
      let ?new = "Route (name ?child) (path ?child) (component ?child) (chunkName ?child) (Some ?placed)"
      have eq: "place srt parent (key # keys) i n file route = parent[k := ?new]"
        using Some by (simp add: Let_def kidsOf_def)
      have parts: "labels children parent =
          labels children (take k parent) + labels children [?child] + labels children (drop (Suc k) parent)"
        by (rule labels_nth [OF k])
      have child: "labels children [?child] = add_mset (children ?child) (labels children (kidsOf ?child))"
        by (simp add: labels_Cons labels_Nil)
      have Pnil: "P []" using sortP [of "[]"] by (simp add: rearranged_Nil [OF perm])
      have kidsP: "P (kidsOf ?child)"
      proof (cases "children ?child")
        case None
        then show ?thesis using Pnil by (simp add: kidsOf_def)
      next
        case (Some cs)
        then have "Some cs \<in># labels children parent" using parts child by simp
        then show ?thesis using Cons.prems(2) Some by (simp add: kidsOf_def)
      qed
      have kidsInner: "\<forall>cs. Some cs \<in># labels children (kidsOf ?child) \<longrightarrow> P cs"
        using Cons.prems(2) parts child by simp
      have IH: "P ?placed \<and> (\<forall>cs. Some cs \<in># labels children ?placed \<longrightarrow> P cs)"
        using Cons.IH [of "kidsOf ?child" ?route "i + 1"] kidsP kidsInner Cons.prems(3) by simp
      have "map path (parent[k := ?new]) = map path parent"
        using k by (simp add: map_update list_update_same_conv)
      then have top: "P (parent[k := ?new])"
        using pathP [of parent "parent[k := ?new]"] Cons.prems(1) by simp
      have new: "labels children [?new] = add_mset (Some ?placed) (labels children ?placed)"
        by (simp add: labels_Cons labels_Nil kidsOf_def)
      have "labels children (parent[k := ?new]) =
          labels children (take k parent) + labels children [?new] + labels children (drop (Suc k) parent)"
        by (rule labels_list_update [OF k])
      then have inner: "\<forall>cs. Some cs \<in># labels children (parent[k := ?new]) \<longrightarrow> P cs"
        using Cons.prems(2) parts IH new by auto
      show ?thesis using top inner unfolding eq by blast
    qed
  qed
qed

lemma build_keeps_lists:
  assumes sorted: "\<forall>l. P (srt l)" and perm: "rearranges srt"
    and paths: "\<forall>l l'. map path l = map path l' \<longrightarrow> P l \<longrightarrow> P l'"
  shows "\<forall>l \<in> set (siblingLists (buildRoutes srt files srcDir pagesDir)). P l"
proof -
  have Pnil: "P []" using sorted [rule_format, of "[]"] by (simp add: rearranged_Nil [OF perm])
  have "P (foldl (addFile srt srcDir pagesDir) routes files) \<and>
        (\<forall>cs. Some cs \<in># labels children (foldl (addFile srt srcDir pagesDir) routes files) \<longrightarrow> P cs)"
    if "P routes" "\<forall>cs. Some cs \<in># labels children routes \<longrightarrow> P cs" for routes
    using that
  proof (induction files arbitrary: routes)
    case Nil
    then show ?case by simp
  next
    case (Cons f fs)
    have "P (addFile srt srcDir pagesDir routes f) \<and>
        (\<forall>cs. Some cs \<in># labels children (addFile srt srcDir pagesDir routes f) \<longrightarrow> P cs)"
      unfolding addFile_def Let_def
      using place_keeps_lists [where P = P and parent = routes
          and route = "Route [] [] (srcDir, f) None None", OF sorted perm paths Cons.prems(1) Cons.prems(2)]
      by simp
    then show ?case using Cons.IH [of "addFile srt srcDir pagesDir routes f"] by simp
  qed
  from this [of "[]"] show ?thesis
    using Pnil by (auto simp: buildRoutes_def siblingLists_iff labels_Nil)
qed

lemma build_settled:
  assumes "sortsBy comparefn srt"
    and "l \<in> set (siblingLists (buildRoutes srt files srcDir pagesDir))"
  shows "settled comparefn l"
proof -
  have sorted: "\<forall>l. settled comparefn (srt l)"
    and perm: "rearranges srt"
    using assms(1) by (simp_all add: sortsBy_def)
  have paths: "\<forall>(l :: string route list) (l' :: string route list).
                 map path l = map path l' \<longrightarrow> settled comparefn l \<longrightarrow> settled comparefn l'"
  proof (intro allI impI)
    fix l l' :: "string route list"
    assume "map path l = map path l'" "settled comparefn l"
    then show "settled comparefn l'" by (rule settled_paths)
  qed
  have "\<forall>l \<in> set (siblingLists (buildRoutes srt files srcDir pagesDir)). settled comparefn l"
    using build_keeps_lists [where P = "settled comparefn", OF sorted perm paths] .
  then show ?thesis using assms(2) by blast
qed

lemma roots_are_nodes: "set forest \<subseteq> set (nodes forest)"
  by (induction forest) (auto simp: nodes_Cons)

lemma nodes_closed: "r \<in> set (nodes forest) \<Longrightarrow> set (nodes (kidsOf r)) \<subseteq> set (nodes forest)"
proof (induction forest rule: nodes.induct)
  case 1
  then show ?case by simp
next
  case (2 nm p cref chunk rs)
  then show ?case by (auto simp: kidsOf_def)
next
  case (3 nm p cref chunk cs rs)
  then show ?case by (auto simp: kidsOf_def)
qed

lemma siblings_are_nodes:
  assumes "l \<in> set (siblingLists forest)"
  shows "set l \<subseteq> set (nodes forest)"
proof -
  consider "l = forest" | r where "r \<in> set (nodes forest)" "children r = Some l"
    using assms by (auto simp: siblingLists_iff labels_def)
  then show ?thesis
  proof cases
    case 1
    then show ?thesis by (simp add: roots_are_nodes)
  next
    case 2
    then have "set (nodes l) \<subseteq> set (nodes forest)"
      using nodes_closed [of r forest] by (simp add: kidsOf_def)
    then show ?thesis using roots_are_nodes [of l] by blast
  qed
qed

lemma plain_files_coherent_lists:
  assumes "\<forall>file \<in> set files. \<forall>key \<in> set (keysOf pagesDir file). CHR '':'' \<notin> set key \<and> CHR ''*'' \<notin> set key"
    and "rearranges srt"
    and "l \<in> set (siblingLists (buildRoutes srt files srcDir pagesDir))"
  shows "\<forall>r \<in> set l. coherent (path r)"
  using build_paths_coherent [OF assms(1,2), of srcDir] siblings_are_nodes [OF assms(3)] by blast

section \<open>Neighbours in a settled list\<close>








section \<open>The anchor of the final pass\<close>









lemma indexOf_neg: "indexOf xs x < 0 \<longleftrightarrow> x \<notin> set xs"
  by (induction xs) (auto simp: Let_def)






section \<open>The names of all nodes after the final pass\<close>

lemma nodes_single_append: "nodes (r # rs) = nodes [r] @ nodes rs"
  using nodes_append [of "[r]" rs] by simp

lemma clean_nodes:
  "map (\<lambda>r. (component r, name r)) (nodes (cleanChildrenRoutes routes isChild)) =
     map (\<lambda>r. (component r, if emptyPathChild r then None else Some (strip_suffix ''-index'' (name r))))
       (nodes routes)"
  "map (\<lambda>r. (component r, name r)) (nodes [cleanRoute start routesIndex isChild route]) =
     map (\<lambda>r. (component r, if emptyPathChild r then None else Some (strip_suffix ''-index'' (name r))))
       (nodes [route])"
  "map (\<lambda>r. (component r, name r)) (nodes (cleanEach start routesIndex isChild routes)) =
     map (\<lambda>r. (component r, if emptyPathChild r then None else Some (strip_suffix ''-index'' (name r))))
       (nodes routes)"
proof (induction routes isChild and start routesIndex isChild route and start routesIndex isChild routes
    rule: cleanChildrenRoutes_cleanRoute_cleanEach.induct)
  case (1 routes isChild)
  then show ?case by (simp split: prod.splits)
next
  case (2 start routesIndex isChild nm p cref chunk kids)
  show ?case
  proof (cases kids)
    case None
    then show ?thesis by (simp add: emptyPathChild_def Let_def)
  next
    case (Some cs)
    let ?g = "\<lambda>r :: string option route. (component r, name r)"
    let ?h = "\<lambda>r :: string route. (component r, if emptyPathChild r then None
                                            else Some (strip_suffix ''-index'' (name r)))"
    have ih: "map ?g (nodes (cleanChildrenRoutes cs True)) = map ?h (nodes cs)"
      using 2 [OF refl refl Some] .
    have c: "cleanRoute start routesIndex isChild (Route nm p cref chunk kids) =
          Route (if \<exists>child \<in> set cs. path child = [] then None else Some (strip_suffix ''-index'' nm))
            (cleanPath start routesIndex isChild nm p) cref chunk (Some (cleanChildrenRoutes cs True))"
      using Some by (simp add: Let_def del: cleanChildrenRoutes.simps)
    have e: "emptyPathChild (Route nm p cref chunk kids) \<longleftrightarrow> (\<exists>child \<in> set cs. path child = [])"
      using Some by (simp add: emptyPathChild_def)
    have n: "nodes [Route nm p cref chunk kids] = Route nm p cref chunk kids # nodes cs"
      using Some by simp
    show ?thesis
      unfolding c n
      by (simp only: nodes.simps list.map route.sel ih e append_Nil2)

  qed
next
  case (3 start routesIndex isChild)
  then show ?case by simp
next
  case (4 start routesIndex isChild route routes)
  let ?g = "\<lambda>r :: string option route. (component r, name r)"
  let ?h = "\<lambda>r :: string route. (component r, if emptyPathChild r then None
                                          else Some (strip_suffix ''-index'' (name r)))"
  have "map ?g (nodes (cleanEach start routesIndex isChild (route # routes))) =
        map ?g (nodes [cleanRoute start routesIndex isChild route])
        @ map ?g (nodes (cleanEach start routesIndex isChild routes))"
    by (simp only: cleanEach.simps map_append [symmetric]) (subst nodes_single_append, rule refl)
  also have "\<dots> = map ?h (nodes [route]) @ map ?h (nodes routes)"
    by (simp only: 4)
  also have "\<dots> = map ?h (nodes (route # routes))"
    by (simp only: map_append [symmetric]) (subst (2) nodes_single_append, rule refl)
  finally show ?case .
qed

section \<open>What flatRoutes returns\<close>

lemma flatRoutes_Some:
  "\<not> parameterised rp \<Longrightarrow>
   flatRoutes (Route nm rp cref chunk (Some cs) # router) p routes =
   flatRoutes router p (flatRoutes cs (p @ rp @ ''/'') (if p = [] \<and> rp = ''/'' then routes @ [''/''] else routes))"
  by (simp add: parameterised_def)

lemma flatRoutes_None:
  "\<not> parameterised rp \<Longrightarrow>
   flatRoutes (Route nm rp cref chunk None # router) p routes =
   flatRoutes router (onlySlashes p) (routes @ [joinPath (onlySlashes p) rp])"
  by (simp add: parameterised_def joinPath_def Let_def)

lemma flatRoutes_accumulates_all:
  fixes dummy :: "string list"
  shows "\<forall>acc. flatRoutes router p acc = acc @ flatRoutes router p []"
proof (induction router p dummy rule: flatRoutes.induct)
  case (1 p routes)
  then show ?case by simp
next
  case (2 nm rp cref chunk kids router p routes)
  show ?case
  proof (cases "parameterised rp")
    case True
    then have c: "\<not> (CHR '':'' \<notin> set rp \<and> CHR ''*'' \<notin> set rp)" by (simp add: parameterised_def)
    have ih: "\<forall>acc. flatRoutes router p acc = acc @ flatRoutes router p []"
      using "2.IH"(4) [OF c] .
    show ?thesis
      by (simp only: flatRoutes_skips [OF True]) (rule ih)
  next
    case False
    then have c: "CHR '':'' \<notin> set rp \<and> CHR ''*'' \<notin> set rp" by (simp add: parameterised_def)
    show ?thesis
    proof (cases kids)
      case None
      have ih: "\<forall>acc. flatRoutes router (onlySlashes p) acc = acc @ flatRoutes router (onlySlashes p) []"
        using "2.IH"(1) [OF c None refl] .
      show ?thesis
      proof
        fix acc
        let ?s = "joinPath (onlySlashes p) rp"
        have "flatRoutes (Route nm rp cref chunk kids # router) p acc =
              flatRoutes router (onlySlashes p) (acc @ [?s])"
          unfolding None by (rule flatRoutes_None [OF False])
        also have "\<dots> = acc @ [?s] @ flatRoutes router (onlySlashes p) []"
          using ih [rule_format, of "acc @ [?s]"] by simp
        also have "[?s] @ flatRoutes router (onlySlashes p) [] = flatRoutes router (onlySlashes p) ([] @ [?s])"
          using ih [rule_format, of "[?s]"] by simp
        also have "\<dots> = flatRoutes (Route nm rp cref chunk kids # router) p []"
          unfolding None by (rule flatRoutes_None [OF False, symmetric])
        finally show "flatRoutes (Route nm rp cref chunk kids # router) p acc =
              acc @ flatRoutes (Route nm rp cref chunk kids # router) p []" .
      qed
    next
      case (Some cs)
      have ih1: "\<forall>acc. flatRoutes cs (p @ rp @ ''/'') acc = acc @ flatRoutes cs (p @ rp @ ''/'') []"
        using "2.IH"(2) [OF c Some] .
      have ih2: "\<forall>acc. flatRoutes router p acc = acc @ flatRoutes router p []"
        using "2.IH"(3) [OF c Some] .
      have gen: "flatRoutes (Route nm rp cref chunk kids # router) p acc =
              (if p = [] \<and> rp = ''/'' then acc @ [''/''] else acc)
                 @ flatRoutes cs (p @ rp @ ''/'') [] @ flatRoutes router p []" for acc
      proof -
        let ?a = "if p = [] \<and> rp = ''/'' then acc @ [''/''] else acc"
        have "flatRoutes (Route nm rp cref chunk kids # router) p acc =
              flatRoutes router p (flatRoutes cs (p @ rp @ ''/'') ?a)"
          unfolding Some by (rule flatRoutes_Some [OF False])
        also have "\<dots> = flatRoutes cs (p @ rp @ ''/'') ?a @ flatRoutes router p []"
          by (rule ih2 [rule_format])
        also have "flatRoutes cs (p @ rp @ ''/'') ?a = ?a @ flatRoutes cs (p @ rp @ ''/'') []"
          by (rule ih1 [rule_format])
        finally show ?thesis by simp
      qed
      show ?thesis
      proof
        fix acc
        show "flatRoutes (Route nm rp cref chunk kids # router) p acc =
              acc @ flatRoutes (Route nm rp cref chunk kids # router) p []"
          by (simp only: gen [of acc] gen [of "[]"]) simp
      qed
    qed
  qed
qed

lemma flatRoutes_accumulates: "flatRoutes router p routes = routes @ flatRoutes router p []"
  using flatRoutes_accumulates_all by blast

lemma flatRoutes_leaf:
  "flatRoutes (Route nm rp cref chunk None # router) p [] =
     (if parameterised rp then flatRoutes router p []
      else joinPath (onlySlashes p) rp # flatRoutes router (onlySlashes p) [])"
proof (cases "parameterised rp")
  case True
  then show ?thesis by (simp only: flatRoutes_skips if_True)
next
  case False
  have "flatRoutes (Route nm rp cref chunk None # router) p [] =
        flatRoutes router (onlySlashes p) ([] @ [joinPath (onlySlashes p) rp])"
    by (rule flatRoutes_None [OF False])
  also have "\<dots> = [joinPath (onlySlashes p) rp] @ flatRoutes router (onlySlashes p) []"
    by (simp only: append_Nil) (rule flatRoutes_accumulates)
  finally show ?thesis using False by simp
qed

lemma flatRoutes_branch:
  "flatRoutes (Route nm rp cref chunk (Some cs) # router) p [] =
     (if parameterised rp then []
      else (if p = [] \<and> rp = ''/'' then [''/''] else []) @ flatRoutes cs (p @ rp @ ''/'') [])
     @ flatRoutes router p []"
proof (cases "parameterised rp")
  case True
  then show ?thesis by (simp only: flatRoutes_skips if_True append_Nil)
next
  case False
  let ?acc = "if p = [] \<and> rp = ''/'' then [] @ [''/''] else []"
  have "flatRoutes (Route nm rp cref chunk (Some cs) # router) p [] =
        flatRoutes router p (flatRoutes cs (p @ rp @ ''/'') ?acc)"
    by (rule flatRoutes_Some [OF False])
  also have "\<dots> = flatRoutes cs (p @ rp @ ''/'') ?acc @ flatRoutes router p []"
    by (rule flatRoutes_accumulates)
  also have "flatRoutes cs (p @ rp @ ''/'') ?acc = ?acc @ flatRoutes cs (p @ rp @ ''/'') []"
    by (rule flatRoutes_accumulates)
  finally show ?thesis using False by simp
qed

lemma onlySlashes_idem: "onlySlashes (onlySlashes p) = onlySlashes p"
  by (simp add: onlySlashes_def)

lemma flatRoutes_leaves:
  "flatRoutes (map withoutChildren router) p [] =
     map (\<lambda>r. joinPath (onlySlashes p) (path r)) (filter (\<lambda>r. \<not> parameterised (path r)) router)"
proof (induction router arbitrary: p)
  case Nil
  then show ?case by simp
next
  case (Cons r router)
  have w: "map withoutChildren (r # router) =
           Route (name r) (path r) (component r) (chunkName r) None # map withoutChildren router"
    by (simp add: withoutChildren_def)
  show ?case
    unfolding w flatRoutes_leaf
    using Cons.IH [of p] Cons.IH [of "onlySlashes p"]
    by (simp add: onlySlashes_idem del: flatRoutes.simps)
qed

section \<open>The route of a file whose last key is index\<close>




section \<open>The claims\<close>

text \<open>
  In the examples the files are given as \<open>createRoutes\<close> receives them: relative to
  the source directory \<open>/app\<close>, under the pages directory \<open>pages\<close>, with the
  extension \<open>vue\<close> or \<open>js\<close>. The forests of the examples are those of
  \<open>createRoutes\<close> with the sort of V8.
\<close>

subsection \<open>C1: the order of the files\<close>

text \<open>
  C1 fails as stated. With \<open>users.vue\<close> before \<open>users/index.vue\<close> the second file is
  merged into the node of the first, which becomes a wrapper without name; in the other
  order the node \<open>users\<close> does not exist yet when \<open>users/index.vue\<close> is placed, and the
  forest has two roots.
\<close>

theorem order_changes_forest:
  "map name (createRoutes [''pages/users.vue'', ''pages/users/index.vue''] ''/app'' ''pages'') = [None]
   \<and> map name (createRoutes [''pages/users/index.vue'', ''pages/users.vue''] ''/app'' ''pages'')
       = [Some ''users'', Some ''users'']"
  by code_simp

text \<open>
  C1, amended. Whatever the order of the files, and for every sort that rearranges its
  array, the forest represents exactly the files it was given: one node per file, with
  the \<open>component\<close> and the \<open>chunkName\<close> of that file, and before the final pass
  the node of a file carries the name derived from the keys of the file. Two lists with
  the same files therefore give forests that represent the same files under the same
  derived names. The paths and the nesting depend on the order of the files (the two
  lists above give the paths \<open>/users\<close> with a child \<open>''\<close>, and \<open>/users\<close> twice),
  and so does the order of siblings: two static files stand in the order in which they
  were given.
\<close>

theorem permutation_keeps_represented_files:
  assumes "rearranges srt" and "mset files = mset files'"
  shows "represented (createRoutesWith srt files srcDir pagesDir)
           = mset (map (\<lambda>file. ((srcDir, file), chunkOf pagesDir file)) files)
       \<and> represented (createRoutesWith srt files' srcDir pagesDir)
           = represented (createRoutesWith srt files srcDir pagesDir)
       \<and> labels (\<lambda>r. (component r, name r)) (buildRoutes srt files srcDir pagesDir)
           = mset (map (\<lambda>file. ((srcDir, file), derivedName pagesDir file)) files)
       \<and> labels (\<lambda>r. (component r, name r)) (buildRoutes srt files' srcDir pagesDir)
           = labels (\<lambda>r. (component r, name r)) (buildRoutes srt files srcDir pagesDir)
       \<and> map path (nodes (createRoutes [''pages/users.vue'', ''pages/users/index.vue''] ''/app'' ''pages''))
           = [''/users'', []]
       \<and> map path (nodes (createRoutes [''pages/users/index.vue'', ''pages/users.vue''] ''/app'' ''pages''))
           = [''/users'', ''/users'']
       \<and> map path (createRoutes [''pages/a.vue'', ''pages/b.vue''] ''/app'' ''pages'') = [''/a'', ''/b'']
       \<and> map path (createRoutes [''pages/b.vue'', ''pages/a.vue''] ''/app'' ''pages'') = [''/b'', ''/a'']"
proof (intro conjI)
  have chunks: "mset (map (\<lambda>file. ((srcDir, file), chunkOf pagesDir file)) files') =
        mset (map (\<lambda>file. ((srcDir, file), chunkOf pagesDir file)) files)"
    using assms(2) by (metis mset_map)
  have names: "mset (map (\<lambda>file. ((srcDir, file), derivedName pagesDir file)) files') =
        mset (map (\<lambda>file. ((srcDir, file), derivedName pagesDir file)) files)"
    using assms(2) by (metis mset_map)
  show "represented (createRoutesWith srt files srcDir pagesDir)
           = mset (map (\<lambda>file. ((srcDir, file), chunkOf pagesDir file)) files)"
    by (rule represented_createRoutesWith [OF assms(1)])
  show "represented (createRoutesWith srt files' srcDir pagesDir)
           = represented (createRoutesWith srt files srcDir pagesDir)"
    by (simp only: represented_createRoutesWith [OF assms(1)] chunks)
  show "labels (\<lambda>r. (component r, name r)) (buildRoutes srt files srcDir pagesDir)
           = mset (map (\<lambda>file. ((srcDir, file), derivedName pagesDir file)) files)"
    by (rule named_buildRoutes [OF assms(1)])
  show "labels (\<lambda>r. (component r, name r)) (buildRoutes srt files' srcDir pagesDir)
           = labels (\<lambda>r. (component r, name r)) (buildRoutes srt files srcDir pagesDir)"
    by (simp only: named_buildRoutes [OF assms(1)] names)
qed code_simp+

theorem permutation_keeps_represented_files_witness:
  "rearranges (sortRoutes :: string route list \<Rightarrow> string route list)
   \<and> mset [''pages/users.vue'', ''pages/users/index.vue''] = mset [''pages/users/index.vue'', ''pages/users.vue'']
   \<and> represented (createRoutes [''pages/users.vue'', ''pages/users/index.vue''] ''/app'' ''pages'')
     = mset [((''/app'', ''pages/users.vue''), Some ''pages/users''),
             ((''/app'', ''pages/users/index.vue''), Some ''pages/users/index'')]
   \<and> represented (createRoutes [''pages/users/index.vue'', ''pages/users.vue''] ''/app'' ''pages'')
     = represented (createRoutes [''pages/users.vue'', ''pages/users/index.vue''] ''/app'' ''pages'')
   \<and> labels (\<lambda>r. (component r, name r))
         (buildRoutes sortRoutes [''pages/users.vue'', ''pages/users/index.vue''] ''/app'' ''pages'')
     = mset [((''/app'', ''pages/users.vue''), ''users''), ((''/app'', ''pages/users/index.vue''), ''users-index'')]
   \<and> labels (\<lambda>r. (component r, name r))
         (buildRoutes sortRoutes [''pages/users/index.vue'', ''pages/users.vue''] ''/app'' ''pages'')
     = labels (\<lambda>r. (component r, name r))
         (buildRoutes sortRoutes [''pages/users.vue'', ''pages/users/index.vue''] ''/app'' ''pages'')"
proof -
  have h: "mset [''pages/users.vue'', ''pages/users/index.vue''] = mset [''pages/users/index.vue'', ''pages/users.vue'']"
    by simp
  have c: "map (\<lambda>file. ((''/app'', file), chunkOf ''pages'' file)) [''pages/users.vue'', ''pages/users/index.vue'']
           = [((''/app'', ''pages/users.vue''), Some ''pages/users''),
              ((''/app'', ''pages/users/index.vue''), Some ''pages/users/index'')]"
    by code_simp
  have d: "map (\<lambda>file. ((''/app'', file), derivedName ''pages'' file)) [''pages/users.vue'', ''pages/users/index.vue'']
           = [((''/app'', ''pages/users.vue''), ''users''), ((''/app'', ''pages/users/index.vue''), ''users-index'')]"
    by code_simp
  show ?thesis
    using h rearranges_sortRoutes
      permutation_keeps_represented_files [OF rearranges_sortRoutes h, of "''/app''" "''pages''"]
    unfolding createRoutes_def c d by blast
qed

subsection \<open>C2: the optional marker\<close>




subsection \<open>C3: the order of siblings\<close>




subsection \<open>C4: one node per file\<close>

text \<open>
  C4 fails as stated. No file gives a node named \<open>users\<close> before
  \<open>users/index.vue\<close> is placed, so nothing is merged at the root: the forest has two
  roots, and the node named \<open>users\<close> has no children.
\<close>

theorem users_without_parent_file:
  "map name (createRoutes [''pages/users/index.vue'', ''pages/users/_id.vue'', ''pages/users/_id/edit.vue'']
       ''/app'' ''pages'') = [Some ''users'', Some ''users-id'']
   \<and> map children (createRoutes [''pages/users/index.vue'', ''pages/users/_id.vue'', ''pages/users/_id/edit.vue'']
       ''/app'' ''pages'')
     = [None, Some [Route (Some ''users-id-edit'') ''edit'' (''/app'', ''pages/users/_id/edit.vue'')
                      (Some ''pages/users/_id/edit'') None]]"
  by code_simp

text \<open>
  C4, amended. For the three files the forest has the root \<open>users\<close> with the path
  \<open>/users\<close> and no children, and the root \<open>users-id\<close> with the path
  \<open>/users/:id?\<close> and the one child \<open>users-id-edit\<close> with the path \<open>edit\<close>. For
  every list of files, every file is the \<open>component\<close> of exactly one node of the
  forest.
\<close>

theorem one_node_per_file:
  "createRoutes [''pages/users/index.vue'', ''pages/users/_id.vue'', ''pages/users/_id/edit.vue''] ''/app'' ''pages'' =
     [Route (Some ''users'') ''/users'' (''/app'', ''pages/users/index.vue'') (Some ''pages/users/index'') None,
      Route (Some ''users-id'') ''/users/:id?'' (''/app'', ''pages/users/_id.vue'') (Some ''pages/users/_id'')
        (Some [Route (Some ''users-id-edit'') ''edit'' (''/app'', ''pages/users/_id/edit.vue'')
                 (Some ''pages/users/_id/edit'') None])]
   \<and> mset (map component (nodes (createRoutes files srcDir pagesDir))) = mset (map (Pair srcDir) files)"
proof
  show "createRoutes [''pages/users/index.vue'', ''pages/users/_id.vue'', ''pages/users/_id/edit.vue''] ''/app'' ''pages'' =
     [Route (Some ''users'') ''/users'' (''/app'', ''pages/users/index.vue'') (Some ''pages/users/index'') None,
      Route (Some ''users-id'') ''/users/:id?'' (''/app'', ''pages/users/_id.vue'') (Some ''pages/users/_id'')
        (Some [Route (Some ''users-id-edit'') ''edit'' (''/app'', ''pages/users/_id/edit.vue'')
                 (Some ''pages/users/_id/edit'') None])]"
    by code_simp
  have "mset (map component (nodes (createRoutes files srcDir pagesDir))) =
        image_mset fst (represented (createRoutes files srcDir pagesDir))"
    by (simp add: represented_def labels_def multiset.map_comp comp_def)
  also have "\<dots> = mset (map (Pair srcDir) files)"
    by (simp add: represented_createRoutes multiset.map_comp comp_def)
  finally show "mset (map component (nodes (createRoutes files srcDir pagesDir))) = mset (map (Pair srcDir) files)" .
qed

subsection \<open>C5: deleting the name of a wrapper\<close>

text \<open>
  C5 fails as stated. \<open>a/b.vue\<close> and \<open>a-b/index.vue\<close> are both merged into the node
  of \<open>a-b.vue\<close> with the empty path: the name is deleted and two children have the
  empty path.
\<close>

theorem two_empty_children_still_deleted:
  "map name (createRoutes [''pages/a-b.vue'', ''pages/a/b.vue'', ''pages/a-b/index.vue''] ''/app'' ''pages'')
     = [None]
   \<and> map path (nodes (createRoutes [''pages/a-b.vue'', ''pages/a/b.vue'', ''pages/a-b/index.vue'']
        ''/app'' ''pages''))
     = [''/a-b'', [], []]"
  by code_simp

text \<open>
  C5, amended. After the pass over a sibling list, the name of a node is deleted if and
  only if the node had \<open>children\<close> and at least one of them had the empty path. The
  deletion changes neither path nor children: the paths are those the pass gives to the
  same nodes without children, and the children are the same nodes in the same order
  (same \<open>component\<close>), each cleaned in nested mode.
\<close>

theorem deletion_keeps_path_and_children:
  "map (\<lambda>r. name r = None) (cleanChildrenRoutes routes isChild) = map emptyPathChild routes
   \<and> map path (cleanChildrenRoutes routes isChild) =
       map path (cleanChildrenRoutes (map withoutChildren routes) isChild)
   \<and> map children (cleanChildrenRoutes routes isChild) =
       map (\<lambda>r. map_option (\<lambda>cs. cleanChildrenRoutes cs True) (children r)) routes
   \<and> map (\<lambda>r. map_option (map component) (children r)) (cleanChildrenRoutes routes isChild) =
       map (\<lambda>r. map_option (map component) (children r)) routes"
  using clean_deleted [of routes isChild] clean_paths_without_children [of routes isChild]
    clean_children [of routes isChild] clean_child_components [of routes isChild]
  by blast

subsection \<open>C6: the place of the path /\<close>

text \<open>
  C6 holds in every sibling list whose paths are coherent, for every sort that meets the
  contract: a node whose path is \<open>/\<close> stands before every sibling whose path starts
  with \<open>/:\<close> or \<open>/*\<close> and after every other sibling whose path is neither empty
  nor \<open>/\<close>. Every path built from file names without colon and star is coherent
  (lemma \<open>plain_files_coherent_lists\<close>).
\<close>

lemma root_in_coherent_lists:
  assumes "sortsBy comparefn srt"
    and "l \<in> set (siblingLists (buildRoutes srt files srcDir pagesDir))"
    and "\<forall>r \<in> set l. coherent (path r)"
    and "i < length l" "j < length l"
    and "path (l ! i) = ''/''"
  shows "(dynamicStart (path (l ! j)) \<longrightarrow> i < j)
       \<and> (path (l ! j) \<noteq> [] \<and> path (l ! j) \<noteq> ''/'' \<and> \<not> dynamicStart (path (l ! j)) \<longrightarrow> j < i)"
proof -
  have ranked: "sorted (map (\<lambda>r. pathRank (path r)) l)"
    using build_settled [OF assms(1,2)] assms(3) by (rule settled_rank_order)
  have coh: "coherent (path (l ! j))" using assms(3,5) by simp
  have ri: "pathRank (path (l ! i)) = 2" using assms(6) by (simp add: pathRank_def)
  show ?thesis
  proof (intro conjI impI)
    assume "dynamicStart (path (l ! j))"
    then have "2 < pathRank (path (l ! j))"
      using coh firstClass_range [of "path (l ! j)"]
      by (auto simp: pathRank_def coherent_def dynamicStart_def starts_with_def)
    then show "i < j"
      using ranked_before [OF ranked assms(4,5)] ri by simp
  next
    assume "path (l ! j) \<noteq> [] \<and> path (l ! j) \<noteq> ''/'' \<and> \<not> dynamicStart (path (l ! j))"
    then have "pathRank (path (l ! j)) < 2"
      using coh firstClass_range [of "path (l ! j)"]
      by (auto simp: pathRank_def coherent_def)
    then show "j < i"
      using ranked_before [OF ranked assms(5,4)] ri by simp
  qed
qed


subsection \<open>C7: the index suffix of a name\<close>

text \<open>
  C7 fails as stated. The pattern \<open>/-index$/\<close> needs the dash: the name \<open>index\<close>
  of a root is kept.
\<close>

theorem root_index_keeps_name:
  "map name (createRoutes [''pages/index.vue''] ''/app'' ''pages'') = [Some ''index'']"
  by code_simp

text \<open>
  C7, amended. After the pass, every node of the forest, at every depth, either has no
  name (it had a child with the empty path) or has its former name with one suffix
  \<open>-index\<close> removed when it was there: a name that ends in \<open>-index\<close> loses that
  suffix, and the name \<open>index\<close> stays. The nodes are listed parents before their
  children, each with its \<open>component\<close>, so that the name is that of the same node.
\<close>

theorem names_after_clean:
  "map (\<lambda>r. (component r, name r)) (nodes (cleanChildrenRoutes routes isChild)) =
     map (\<lambda>r. (component r, if emptyPathChild r then None else Some (strip_suffix ''-index'' (name r))))
       (nodes routes)
   \<and> strip_suffix ''-index'' (nm @ ''-index'') = nm
   \<and> strip_suffix ''-index'' ''index'' = ''index''
   \<and> map name (nodes (createRoutes [''pages/users.vue'', ''pages/users/profile/index.vue''] ''/app'' ''pages''))
       = [Some ''users'', Some ''users-profile'']"
proof (intro conjI)
  show "map (\<lambda>r. (component r, name r)) (nodes (cleanChildrenRoutes routes isChild)) =
     map (\<lambda>r. (component r, if emptyPathChild r then None else Some (strip_suffix ''-index'' (name r))))
       (nodes routes)"
    by (rule clean_nodes(1))
  show "strip_suffix ''-index'' (nm @ ''-index'') = nm"
    by (rule strip_suffix_append)
  show "strip_suffix ''-index'' ''index'' = ''index''"
    by (simp add: strip_suffix_def ends_with_def)
qed code_simp

subsection \<open>C8: a trailing index key\<close>




subsection \<open>C9: what the flattener leaves out\<close>

text \<open>
  C9 fails as stated. \<open>flatRoutes\<close> itself tests \<open>r.path.includes(':')\<close> and
  \<open>r.path.includes('*')\<close> and returns nothing for such a leaf.
\<close>

theorem flatRoutes_drops_parameterised_leaves:
  "flatRoutes [Route (Some ''about'') ''/about'' (''/app'', ''pages/about.vue'') (Some ''pages/about'') None,
               Route (Some ''users-id'') ''/users/:id?'' (''/app'', ''pages/users/_id.vue'') (Some ''pages/users/_id'') None,
               Route (Some ''all'') ''/*'' (''/app'', ''pages/_.vue'') (Some ''pages/_'') None] [] []
   = [''/about'']"
  by code_simp

text \<open>
  C9, amended. \<open>flatRoutes\<close> skips every node whose path holds a colon or a star,
  with its children, and appends to the array it is given. For a node without
  \<open>children\<close> it yields the prefix, with a prefix of slashes only taken as one
  slash and its last slash dropped when the path of the node is empty, followed by the
  path of the node; the nodes after it are flattened with that prefix. For a node with
  \<open>children\<close> it yields what the children yield under the prefix followed by the
  path of the node and a slash, after one extra \<open>/\<close> when the prefix is empty and the
  path of the node is \<open>/\<close>. So a list of nodes without children yields one string for
  each node that has no parameter, and in general the number of strings is the number of
  such nodes that are reached, plus the extra slashes.
\<close>

theorem flatRoutes_excludes_and_composes:
  "flatRoutes (Route nm (u @ '':'' @ v) cref chunk kids # router) p routes = flatRoutes router p routes
   \<and> flatRoutes (Route nm (u @ ''*'' @ v) cref chunk kids # router) p routes = flatRoutes router p routes
   \<and> flatRoutes router p routes = routes @ flatRoutes router p []
   \<and> flatRoutes (Route nm rp cref chunk None # router) p [] =
       (if parameterised rp then flatRoutes router p []
        else joinPath (onlySlashes p) rp # flatRoutes router (onlySlashes p) [])
   \<and> flatRoutes (Route nm rp cref chunk (Some cs) # router) p [] =
       (if parameterised rp then []
        else (if p = [] \<and> rp = ''/'' then [''/''] else []) @ flatRoutes cs (p @ rp @ ''/'') [])
       @ flatRoutes router p []
   \<and> flatRoutes (map withoutChildren router) p [] =
       map (\<lambda>r. joinPath (onlySlashes p) (path r)) (filter (\<lambda>r. \<not> parameterised (path r)) router)
   \<and> length (flatRoutes router p routes) =
       length routes + leaves router + (if p = [] then rootPushes router else 0)
   \<and> flatRoutes
        [Route (Some ''about'') ''/about'' (''/app'', ''pages/about.vue'') (Some ''pages/about'') None,
         Route None ''/users'' (''/app'', ''pages/users.vue'') (Some ''pages/users'')
           (Some [Route (Some ''users'') [] (''/app'', ''pages/users/index.vue'') (Some ''pages/users/index'') None,
                  Route (Some ''users-profile'') ''profile'' (''/app'', ''pages/users/profile.vue'')
                    (Some ''pages/users/profile'') None,
                  Route (Some ''users-id'') '':id'' (''/app'', ''pages/users/_id.vue'') (Some ''pages/users/_id'') None]),
         Route None ''/'' (''/app'', ''pages/index.vue'') (Some ''pages/index'')
           (Some [Route (Some ''index'') [] (''/app'', ''pages/index.js'') (Some ''pages/index'') None])] [] []
       = [''/about'', ''/users'', ''/users/profile'', ''/'', []]"
proof (intro conjI)
  show "flatRoutes (Route nm (u @ '':'' @ v) cref chunk kids # router) p routes = flatRoutes router p routes"
    by (rule flatRoutes_skips) (simp add: parameterised_def)
  show "flatRoutes (Route nm (u @ ''*'' @ v) cref chunk kids # router) p routes = flatRoutes router p routes"
    by (rule flatRoutes_skips) (simp add: parameterised_def)
  show "flatRoutes router p routes = routes @ flatRoutes router p []"
    by (rule flatRoutes_accumulates)
  show "flatRoutes (Route nm rp cref chunk None # router) p [] =
       (if parameterised rp then flatRoutes router p []
        else joinPath (onlySlashes p) rp # flatRoutes router (onlySlashes p) [])"
    by (rule flatRoutes_leaf)
  show "flatRoutes (Route nm rp cref chunk (Some cs) # router) p [] =
       (if parameterised rp then []
        else (if p = [] \<and> rp = ''/'' then [''/''] else []) @ flatRoutes cs (p @ rp @ ''/'') [])
       @ flatRoutes router p []"
    by (rule flatRoutes_branch)
  show "flatRoutes (map withoutChildren router) p [] =
       map (\<lambda>r. joinPath (onlySlashes p) (path r)) (filter (\<lambda>r. \<not> parameterised (path r)) router)"
    by (rule flatRoutes_leaves)
  show "length (flatRoutes router p routes) =
       length routes + leaves router + (if p = [] then rootPushes router else 0)"
    by (rule length_flatRoutes)
qed code_simp

theorem flatRoutes_excludes_and_composes_witness:
  "flatRoutes
     (map withoutChildren
        [Route (Some ''index'') [] (''/app'', ''pages/index.js'') (Some ''pages/index'') None,
         Route (Some ''id'') '':id'' (''/app'', ''pages/_id.vue'') (Some ''pages/_id'') None,
         Route (Some ''about'') ''about'' (''/app'', ''pages/about.vue'') (Some ''pages/about'') None])
     ''//'' []
   = [[], ''/about'']
   \<and> onlySlashes ''//'' = ''/'' \<and> joinPath ''/'' [] = [] \<and> joinPath ''/'' ''about'' = ''/about''"
proof -
  let ?router = "[Route (Some ''index'') [] (''/app'', ''pages/index.js'') (Some ''pages/index'') None,
         Route (Some ''id'') '':id'' (''/app'', ''pages/_id.vue'') (Some ''pages/_id'') None,
         Route (Some ''about'') ''about'' (''/app'', ''pages/about.vue'') (Some ''pages/about'') None]"
  have "flatRoutes (map withoutChildren ?router) ''//'' [] =
        map (\<lambda>r. joinPath (onlySlashes ''//'') (path r)) (filter (\<lambda>r. \<not> parameterised (path r)) ?router)"
    by (rule flatRoutes_excludes_and_composes
          [THEN conjunct2, THEN conjunct2, THEN conjunct2, THEN conjunct2, THEN conjunct2, THEN conjunct1])
  moreover have "map (\<lambda>r. joinPath (onlySlashes ''//'') (path r)) (filter (\<lambda>r. \<not> parameterised (path r)) ?router)
                 = [[], ''/about'']"
    by code_simp
  moreover have "onlySlashes ''//'' = ''/'' \<and> joinPath ''/'' [] = [] \<and> joinPath ''/'' ''about'' = ''/about''"
    by code_simp
  ultimately show ?thesis by simp
qed

subsection \<open>C10: empty paths come first\<close>

text \<open>
  C10. For every sort that meets the contract, in every sibling list of the forest that
  \<open>createRoutes\<close> has built after any number of files (each list as its last
  \<open>parent.push(route)\<close> and \<open>parent.sort(...)\<close> left it), every sibling whose path
  is the empty string stands before every sibling whose path is not empty, whatever the
  non-empty paths are: the comparator answers \<open>-1\<close> when \<open>a.path\<close> is empty and
  \<open>1\<close> when only \<open>b.path\<close> is, so that a node with a path directly before a node
  without one would be a pair of neighbours that the comparator rejects both ways.
\<close>

theorem empty_path_siblings_first:
  assumes "sortsBy comparefn srt"
    and "l \<in> set (siblingLists (buildRoutes srt files srcDir pagesDir))"
    and "i < length l" "j < length l"
    and "path (l ! i) = []" "path (l ! j) \<noteq> []"
  shows "i < j"
  using ranked_before [OF settled_empty_first [OF build_settled [OF assms(1,2)]] assms(3,4)] assms(5,6)
  by simp

theorem empty_path_siblings_first_witness:
  "sortsBy comparefn (sortRoutes :: string route list \<Rightarrow> string route list)
   \<and> [Route ''users-index'' [] (''/app'', ''pages/users/index.vue'') (Some ''pages/users/index'') None,
      Route ''users-id'' ''/:id?'' (''/app'', ''pages/users/_id.vue'') (Some ''pages/users/_id'') None]
       \<in> set (siblingLists (buildRoutes sortRoutes [''pages/users.vue'', ''pages/users/_id.vue'', ''pages/users/index.vue'']
                  ''/app'' ''pages''))
   \<and> (0::nat) < 1"
proof -
  let ?l = "[Route ''users-index'' [] (''/app'', ''pages/users/index.vue'') (Some ''pages/users/index'') None,
    Route ''users-id'' ''/:id?'' (''/app'', ''pages/users/_id.vue'') (Some ''pages/users/_id'') None]"
  have m: "?l \<in> set (siblingLists (buildRoutes sortRoutes [''pages/users.vue'', ''pages/users/_id.vue'', ''pages/users/index.vue'']
                ''/app'' ''pages''))"
    by code_simp
  have "(0::nat) < 1"
    using empty_path_siblings_first [OF sortsBy_sortRoutes m, of 0 1] by simp
  then show ?thesis using m sortsBy_sortRoutes by blast
qed

end
